theory Spec2Isabelle
  imports Main
begin

section \<open>Game of Invasions (goi.c): the rule engine\<close>

text \<open>
  The C integers of goi.c are modelled as \<open>int\<close>: cell values, neighbour counts
  (at most 9) and grid indices stay far from the limits of a 32-bit int for every grid
  that fits in memory, as does the death toll, and signed overflow is undefined in C
  anyway.
  Grids are row-major \<open>int list\<close>s; a NULL overlay pointer is \<open>None\<close>.
  Every access outside an array is a value of type \<open>fault\<close>, never an unspecified
  list element.
\<close>

datatype fault =
    GridOverrun        \<comment> \<open>read or write past the end of a grid buffer\<close>
  | CountsOverrun      \<comment> \<open>index of neighborCounts outside [0, MAX_FACTIONS)\<close>
  | DivideByZero       \<comment> \<open>index / nCols or total / nThreads with a zero divisor\<close>
  | NullDeref          \<comment> \<open>write through the result of an unchecked malloc\<close>
  | BadFree            \<comment> \<open>free of a block that is not live\<close>
  | BadArraySize       \<comment> \<open>a variable-length array of nThreads < 1 elements\<close>
  | ScheduleOverrun    \<comment> \<open>read past the end of invasionTimes or invasionPlans\<close>
  | JoinUncreated      \<comment> \<open>pthread_join on an element of threads[] that was never set\<close>

definition MAX_FACTIONS :: int where
  "MAX_FACTIONS = 10"

definition DEAD_FACTION :: int where
  "DEAD_FACTION = 0"

definition isBirthable :: "int \<Rightarrow> bool" where
  "isBirthable n \<longleftrightarrow> n = 3"

definition isSurvivable :: "int \<Rightarrow> bool" where
  "isSurvivable n \<longleftrightarrow> n = 2 \<or> n = 3"

definition willFight :: "int \<Rightarrow> bool" where
  "willFight n \<longleftrightarrow> n > 0"

text \<open>Modelled from the spec: \<open>getValueAt\<close> and \<open>setValueAt\<close> are declared in util.h,
  which is not among the sources. The spec fixes a row-major grid in which positions
  outside \<open>[0,nRows) \<times> [0,nCols)\<close> do not exist; the caller's test
  \<open>faction >= DEAD_FACTION\<close> shows that such a read yields a negative value, taken
  here to be \<open>-1\<close>, and a write there is dropped.
\<close>

definition getValueAt :: "int list \<Rightarrow> int \<Rightarrow> int \<Rightarrow> int \<Rightarrow> int \<Rightarrow> fault + int" where
  "getValueAt grid nRows nCols row col =
     (if row < 0 \<or> row \<ge> nRows \<or> col < 0 \<or> col \<ge> nCols then Inr (- 1)
      else if nat (row * nCols + col) < length grid
           then Inr (grid ! nat (row * nCols + col))
           else Inl GridOverrun)"

definition setValueAt :: "int list \<Rightarrow> int \<Rightarrow> int \<Rightarrow> int \<Rightarrow> int \<Rightarrow> int \<Rightarrow> fault + int list" where
  "setValueAt grid nRows nCols row col val =
     (if row < 0 \<or> row \<ge> nRows \<or> col < 0 \<or> col \<ge> nCols then Inr grid
      else if nat (row * nCols + col) < length grid
           then Inr (grid[nat (row * nCols + col) := val])
           else Inl GridOverrun)"

text \<open>A \<open>for\<close> loop over a known range: the body runs on each element in order and a
  failure (or an early return) of the body ends the loop.\<close>

fun forEach :: "'a list \<Rightarrow> ('a \<Rightarrow> 's \<Rightarrow> 'e + 's) \<Rightarrow> 's \<Rightarrow> 'e + 's" where
  "forEach [] body s = Inr s"
| "forEach (x # xs) body s =
     (case body x s of Inl e \<Rightarrow> Inl e | Inr s' \<Rightarrow> forEach xs body s')"

text \<open>\<open>neighborCounts[faction]++\<close> and \<open>neighborCounts[faction]--\<close> on the array of
  \<open>MAX_FACTIONS\<close> counters.\<close>

definition incrCount :: "int list \<Rightarrow> int \<Rightarrow> fault + int list" where
  "incrCount counts faction =
     (if 0 \<le> faction \<and> nat faction < length counts
      then Inr (counts[nat faction := counts ! nat faction + 1])
      else Inl CountsOverrun)"

definition decrCount :: "int list \<Rightarrow> int \<Rightarrow> fault + int list" where
  "decrCount counts faction =
     (if 0 \<le> faction \<and> nat faction < length counts
      then Inr (counts[nat faction := counts ! nat faction - 1])
      else Inl CountsOverrun)"

text \<open>Lines 64-79: the zeroed counters and the two nested loops over dy and dx, which
  also visit the cell itself.\<close>

definition countCell :: "int list \<Rightarrow> int \<Rightarrow> int \<Rightarrow> int \<Rightarrow> int \<Rightarrow> int list \<Rightarrow> fault + int list" where
  "countCell currWorld nRows nCols r c counts =
     (case getValueAt currWorld nRows nCols r c of
        Inl e \<Rightarrow> Inl e
      | Inr faction \<Rightarrow>
          if faction \<ge> DEAD_FACTION then incrCount counts faction else Inr counts)"

definition countNeighbors :: "int list \<Rightarrow> int \<Rightarrow> int \<Rightarrow> int \<Rightarrow> int \<Rightarrow> fault + int list" where
  "countNeighbors currWorld nRows nCols row col =
     forEach [- 1, 0, 1]
       (\<lambda>dy. forEach [- 1, 0, 1]
          (\<lambda>dx. countCell currWorld nRows nCols (row + dy) (col + dx)))
       (replicate (nat MAX_FACTIONS) 0)"

text \<open>Lines 93-100: the birth scan, every qualifying faction overwriting the earlier one.\<close>

definition birthScan :: "int list \<Rightarrow> int" where
  "birthScan counts =
     foldl (\<lambda>newFaction faction.
              if isBirthable (counts ! nat faction) then faction else newFaction)
       DEAD_FACTION [DEAD_FACTION + 1 .. MAX_FACTIONS - 1]"

text \<open>Lines 114-122: the sum of the counters of the other live factions.\<close>

definition hostileCount :: "int list \<Rightarrow> int \<Rightarrow> int" where
  "hostileCount counts cellFaction =
     foldl (\<lambda>h faction. if faction = cellFaction then h else h + counts ! nat faction)
       0 [DEAD_FACTION + 1 .. MAX_FACTIONS - 1]"

text \<open>Lines 64-82: the tally, with the adjustment \<open>neighborCounts[cellFaction]--\<close> for
  the cell that counted itself.\<close>

definition neighborTally :: "int list \<Rightarrow> int \<Rightarrow> int \<Rightarrow> int \<Rightarrow> int \<Rightarrow> int \<Rightarrow> fault + int list" where
  "neighborTally currWorld nRows nCols row col cellFaction =
     (case countNeighbors currWorld nRows nCols row col of
        Inl e \<Rightarrow> Inl e
      | Inr counted \<Rightarrow> decrCount counted cellFaction)"

text \<open>Lines 64-137: the part of \<open>getNextState\<close> after the invasion test, for a cell
  whose current faction is \<open>cellFaction\<close>. The result is the next faction together
  with the flag stored in \<open>*diedDueToFighting\<close>.\<close>

definition neighborRules ::
  "int list \<Rightarrow> int \<Rightarrow> int \<Rightarrow> int \<Rightarrow> int \<Rightarrow> int \<Rightarrow> fault + (int \<times> bool)" where
  "neighborRules currWorld nRows nCols row col cellFaction =
     (case neighborTally currWorld nRows nCols row col cellFaction of
        Inl e \<Rightarrow> Inl e
      | Inr neighborCounts \<Rightarrow>
          if cellFaction = DEAD_FACTION
          then Inr (birthScan neighborCounts, False)
          else if willFight (hostileCount neighborCounts cellFaction)
          then Inr (DEAD_FACTION, True)
          else if \<not> isSurvivable (neighborCounts ! nat cellFaction)
          then Inr (DEAD_FACTION, False)
          else Inr (cellFaction, False))"

text \<open>Lines 49-62: the cell's faction is read, then the invasion plan, if there is one.\<close>

definition getNextState ::
  "int list \<Rightarrow> int list option \<Rightarrow> int \<Rightarrow> int \<Rightarrow> int \<Rightarrow> int \<Rightarrow> fault + (int \<times> bool)" where
  "getNextState currWorld invaders nRows nCols row col =
     (case getValueAt currWorld nRows nCols row col of
        Inl e \<Rightarrow> Inl e
      | Inr cellFaction \<Rightarrow>
         (case invaders of
            None \<Rightarrow> neighborRules currWorld nRows nCols row col cellFaction
          | Some plan \<Rightarrow>
             (case getValueAt plan nRows nCols row col of
                Inl e \<Rightarrow> Inl e
              | Inr landed \<Rightarrow>
                  if landed \<noteq> DEAD_FACTION
                  then Inr (landed, cellFaction \<noteq> DEAD_FACTION)
                  else neighborRules currWorld nRows nCols row col cellFaction)))"

text \<open>Lines 140-146. C's \<open>/\<close> and \<open>%\<close> truncate towards zero.\<close>

definition c_div :: "int \<Rightarrow> int \<Rightarrow> int" where
  "c_div a b = sgn a * sgn b * (\<bar>a\<bar> div \<bar>b\<bar>)"

definition c_mod :: "int \<Rightarrow> int \<Rightarrow> int" where
  "c_mod a b = a - b * c_div a b"

definition getRow :: "int \<Rightarrow> int \<Rightarrow> int \<Rightarrow> int" where
  "getRow nRows nCols index = c_div index nCols"

definition getCol :: "int \<Rightarrow> int \<Rightarrow> int \<Rightarrow> int" where
  "getCol nRows nCols index = c_mod index nCols"

text \<open>Lines 171-186: what a worker does for one cell index: the next state is written
  into the next buffer and a death by fighting adds one to the shared death toll (the
  increment is under the mutex, so it is atomic).\<close>

definition cellStep ::
  "int list \<Rightarrow> int list option \<Rightarrow> int \<Rightarrow> int \<Rightarrow> int \<Rightarrow> (int list \<times> int) \<Rightarrow> fault + (int list \<times> int)" where
  "cellStep world invaders nRows nCols i st =
     (if nCols = 0 then Inl DivideByZero
      else
        (let row = getRow nRows nCols i; col = getCol nRows nCols i in
         case getNextState world invaders nRows nCols row col of
           Inl e \<Rightarrow> Inl e
         | Inr (nextState, diedDueToFighting) \<Rightarrow>
            (case setValueAt (fst st) nRows nCols row col nextState of
               Inl e \<Rightarrow> Inl e
             | Inr wholeNewWorld \<Rightarrow>
                 Inr (wholeNewWorld, if diedDueToFighting then snd st + 1 else snd st))))"

section \<open>The coordinator: \<open>goi\<close>\<close>

text \<open>
  What \<open>goi\<close> gets from its environment is a parameter of the model: whether the
  k-th call of \<open>malloc\<close> returns a block, what an uninitialised block holds, and
  whether \<open>pthread_create\<close> succeeds for a worker. The heap is the number of calls of
  \<open>malloc\<close> so far and the blocks that are live, each named by the number of the call
  that returned it.

  The scheduling of the threads is not modelled. The workers of one generation write
  disjoint cells of the next buffer and change the death toll only under the mutex, and
  the barrier separates the generations, so the model runs the workers of a generation
  one after the other, in the order of their partitions; the gate mutexes and the
  barrier have no counterpart here. The array \<open>threads\<close> is a local array without
  initialiser whose elements are set by \<open>pthread_create\<close> in the first pass of the
  generation loop only (\<open>spawnThreads\<close> is false until then), so the calls of
  \<open>pthread_join\<close> after the loop read handles that are set exactly when
  \<open>spawnThreads\<close> is true; joining through a handle that was never set is undefined
  behaviour, a fault of the model.
\<close>

record env =
  mallocOk :: "nat \<Rightarrow> bool"
  junk :: "nat \<Rightarrow> nat \<Rightarrow> int"
  threadOk :: "nat \<Rightarrow> bool"

record heap =
  allocated :: nat
  live :: "nat list"

definition malloc :: "env \<Rightarrow> heap \<Rightarrow> nat option \<times> heap" where
  "malloc e h =
     (let k = allocated h in
      if mallocOk e k then (Some k, \<lparr>allocated = Suc k, live = k # live h\<rparr>)
      else (None, \<lparr>allocated = Suc k, live = live h\<rparr>))"

definition free :: "nat \<Rightarrow> heap \<Rightarrow> fault + heap" where
  "free k h =
     (if k \<in> set (live h) then Inr (h\<lparr>live := removeAll k (live h)\<rparr>) else Inl BadFree)"

text \<open>The block \<open>malloc(sizeof(int) * nRows * nCols)\<close> as it is returned.\<close>

definition freshGrid :: "env \<Rightarrow> nat \<Rightarrow> int \<Rightarrow> int \<Rightarrow> int list" where
  "freshGrid e k nRows nCols = map (junk e k) [0 ..< nat (nRows * nCols)]"

text \<open>How \<open>goi\<close> ends: it returns a value, the process exits, or the behaviour is
  undefined.\<close>

datatype outcome = Returned int | Exited int | Crashed fault

text \<open>Lines 216-218, 236-272: the index ranges \<open>[startIdx, endIdx)\<close> of the workers,
  the first \<open>nThreads - 1\<close> from the loop and the last one set after it.\<close>

definition partitions :: "int \<Rightarrow> int \<Rightarrow> int \<Rightarrow> (int \<times> int) list" where
  "partitions nThreads nRows nCols =
     (let totalGrids = nRows * nCols;
          threadSize = c_div totalGrids nThreads;
          (index, items) =
            foldl (\<lambda>(index, items) i.
                     (index + threadSize,
                      items @ [(index, min (index + threadSize) totalGrids)]))
              (0, []) [0 ..< nat (nThreads - 1)]
      in items @ [(index, totalGrids)])"

text \<open>Lines 227-233 and 298-304: a grid is copied cell by cell.\<close>

definition copyGrid :: "int list \<Rightarrow> int list \<Rightarrow> int \<Rightarrow> int \<Rightarrow> fault + int list" where
  "copyGrid src dst nRows nCols =
     forEach [0 .. nRows - 1]
       (\<lambda>row. forEach [0 .. nCols - 1]
          (\<lambda>col grid.
             case getValueAt src nRows nCols row col of
               Inl e \<Rightarrow> Inl e
             | Inr v \<Rightarrow> setValueAt grid nRows nCols row col v))
       dst"

text \<open>Lines 236-272: one \<open>shared\<close> block per worker; the result of \<open>malloc\<close> is
  written through without a test.\<close>

definition allocItems :: "env \<Rightarrow> int \<Rightarrow> heap \<Rightarrow> (outcome \<times> heap) + (nat list \<times> heap)" where
  "allocItems e nThreads h =
     forEach [0 ..< nat nThreads]
       (\<lambda>t (items, h).
          case malloc e h of
            (None, h') \<Rightarrow> Inl (Crashed NullDeref, h')
          | (Some k, h') \<Rightarrow> Inr (items @ [k], h'))
       ([], h)"

text \<open>The variables of the generation loop: the current world (its block and what it
  holds), the death toll, \<open>invasionIndex\<close>, \<open>spawnThreads\<close> and the heap.\<close>

record sim =
  curBlock :: nat
  curWorld :: "int list"
  deathToll :: int
  invasionIndex :: nat
  spawnThreads :: bool
  heapNow :: heap

text \<open>Lines 288-306: the invasion of generation \<open>i\<close>, if one is due, is copied into a
  block of its own. The plan is read inside the copy loops only, so a missing plan is
  not read when the grid has no cell.\<close>

definition loadInvasion ::
  "env \<Rightarrow> int \<Rightarrow> int \<Rightarrow> int \<Rightarrow> int list \<Rightarrow> int list list \<Rightarrow> int \<Rightarrow> sim \<Rightarrow>
     (outcome \<times> heap) + ((nat \<times> int list) option \<times> sim)" where
  "loadInvasion e nRows nCols nInvasions invasionTimes invasionPlans i st =
     (if int (invasionIndex st) < nInvasions
      then if invasionIndex st < length invasionTimes
           then if i = invasionTimes ! invasionIndex st
                then (case malloc e (heapNow st) of
                        (None, h) \<Rightarrow>
                          (case free (curBlock st) h of
                             Inl f \<Rightarrow> Inl (Crashed f, h)
                           | Inr h' \<Rightarrow> Inl (Returned (- 1), h'))
                      | (Some k, h) \<Rightarrow>
                          (case (if invasionIndex st < length invasionPlans
                                 then copyGrid (invasionPlans ! invasionIndex st)
                                        (freshGrid e k nRows nCols) nRows nCols
                                 else if 0 < nRows \<and> 0 < nCols then Inl ScheduleOverrun
                                 else Inr (freshGrid e k nRows nCols)) of
                             Inl f \<Rightarrow> Inl (Crashed f, h)
                           | Inr plan \<Rightarrow>
                               Inr (Some (k, plan),
                                    st\<lparr>invasionIndex := Suc (invasionIndex st),
                                       heapNow := h\<rparr>)))
                else Inr (None, st)
           else Inl (Crashed ScheduleOverrun, heapNow st)
      else Inr (None, st))"

text \<open>\<open>if (inv != NULL) free(inv); free(world);\<close>\<close>

definition releaseGrids :: "(nat \<times> int list) option \<Rightarrow> nat \<Rightarrow> heap \<Rightarrow> fault + heap" where
  "releaseGrids overlay worldBlock h =
     (case (case overlay of None \<Rightarrow> Inr h | Some (k, plan) \<Rightarrow> free k h) of
        Inl f \<Rightarrow> Inl f
      | Inr h' \<Rightarrow> free worldBlock h')"

text \<open>Lines 165-190: the workers of one generation, each over its own index range.\<close>

definition runWorkers ::
  "(int \<times> int) list \<Rightarrow> int list \<Rightarrow> int list option \<Rightarrow> int \<Rightarrow> int \<Rightarrow> (int list \<times> int) \<Rightarrow>
     fault + (int list \<times> int)" where
  "runWorkers parts world invaders nRows nCols st =
     forEach parts
       (\<lambda>(startIdx, endIdx).
          forEach [startIdx .. endIdx - 1] (cellStep world invaders nRows nCols))
       st"

text \<open>Lines 285-363: one generation.\<close>

definition generation ::
  "env \<Rightarrow> int \<Rightarrow> int \<Rightarrow> int \<Rightarrow> int \<Rightarrow> int list \<Rightarrow> int list list \<Rightarrow> int \<Rightarrow> sim \<Rightarrow>
     (outcome \<times> heap) + sim" where
  "generation e nThreads nRows nCols nInvasions invasionTimes invasionPlans i st =
     (case loadInvasion e nRows nCols nInvasions invasionTimes invasionPlans i st of
        Inl stop \<Rightarrow> Inl stop
      | Inr (overlay, st1) \<Rightarrow>
         (case malloc e (heapNow st1) of
            (None, h) \<Rightarrow>
              (case releaseGrids overlay (curBlock st1) h of
                 Inl f \<Rightarrow> Inl (Crashed f, h)
               | Inr h' \<Rightarrow> Inl (Returned (- 1), h'))
          | (Some k, h) \<Rightarrow>
              if \<not> spawnThreads st1 \<and> \<not> list_all (threadOk e) [0 ..< nat nThreads]
              then Inl (Exited (- 1), h)
              else (case runWorkers (partitions nThreads nRows nCols) (curWorld st1)
                           (map_option snd overlay) nRows nCols
                           (freshGrid e k nRows nCols, deathToll st1) of
                      Inl f \<Rightarrow> Inl (Crashed f, h)
                    | Inr (wholeNewWorld, toll) \<Rightarrow>
                       (case releaseGrids overlay (curBlock st1) h of
                          Inl f \<Rightarrow> Inl (Crashed f, h)
                        | Inr h' \<Rightarrow>
                            Inr (st1\<lparr>curBlock := k, curWorld := wholeNewWorld,
                                     deathToll := toll, spawnThreads := True,
                                     heapNow := h'\<rparr>)))))"

text \<open>Lines 203-233 and 236-272, up to the generation loop.\<close>

definition initialise ::
  "env \<Rightarrow> int \<Rightarrow> int list \<Rightarrow> int \<Rightarrow> int \<Rightarrow> (outcome \<times> heap) + (nat \<times> nat list \<times> sim)" where
  "initialise e nThreads startWorld nRows nCols =
     (if nThreads < 1 then Inl (Crashed BadArraySize, \<lparr>allocated = 0, live = []\<rparr>)
      else
        (case malloc e \<lparr>allocated = 0, live = []\<rparr> of
           (None, h1) \<Rightarrow> Inl (Exited (- 1), h1)
         | (Some sharedStructs, h1) \<Rightarrow>
            (case malloc e h1 of
               (None, h2) \<Rightarrow> Inl (Returned (- 1), h2)
             | (Some worldBlock, h2) \<Rightarrow>
                (case copyGrid startWorld (freshGrid e worldBlock nRows nCols) nRows nCols of
                   Inl f \<Rightarrow> Inl (Crashed f, h2)
                 | Inr world \<Rightarrow>
                    (case allocItems e nThreads h2 of
                       Inl stop \<Rightarrow> Inl stop
                     | Inr (items, h3) \<Rightarrow>
                         Inr (sharedStructs, items,
                              \<lparr>curBlock = worldBlock, curWorld = world, deathToll = 0,
                               invasionIndex = 0, spawnThreads = False, heapNow = h3\<rparr>))))))"

text \<open>Lines 285-363: the generation loop, from the state \<open>initialise\<close> leaves.\<close>

definition generations ::
  "env \<Rightarrow> int \<Rightarrow> int \<Rightarrow> int \<Rightarrow> int \<Rightarrow> int \<Rightarrow> int list \<Rightarrow> int list list \<Rightarrow> sim \<Rightarrow>
     (outcome \<times> heap) + sim" where
  "generations e nThreads nGenerations nRows nCols nInvasions invasionTimes invasionPlans st =
     forEach [1 .. nGenerations]
       (generation e nThreads nRows nCols nInvasions invasionTimes invasionPlans) st"

text \<open>Lines 365-367: every element of \<open>threads\<close> is joined. There is at least one,
  since \<open>nThreads\<close> is at least 1 here, and the elements are set only if the generation
  loop ran.\<close>

definition joinThreads :: "sim \<Rightarrow> fault + unit" where
  "joinThreads st = (if spawnThreads st then Inr () else Inl JoinUncreated)"

text \<open>Lines 365-381: the workers are joined, the last world, the \<open>shared\<close> blocks and
  their array are freed and the death toll is returned.\<close>

definition cleanup :: "nat \<Rightarrow> nat list \<Rightarrow> sim \<Rightarrow> outcome \<times> heap" where
  "cleanup sharedStructs items st =
     (case joinThreads st of
        Inl f \<Rightarrow> (Crashed f, heapNow st)
      | Inr joined \<Rightarrow>
         (case free (curBlock st) (heapNow st) of
            Inl f \<Rightarrow> (Crashed f, heapNow st)
          | Inr h \<Rightarrow>
             (case forEach items free h of
                Inl f \<Rightarrow> (Crashed f, h)
              | Inr h' \<Rightarrow>
                 (case free sharedStructs h' of
                    Inl f \<Rightarrow> (Crashed f, h')
                  | Inr h'' \<Rightarrow> (Returned (deathToll st), h'')))))"

text \<open>\<open>goi\<close>: how the call ends and the heap it leaves. \<open>lastWorld\<close> is the world the
  generation loop ends with, which the source hands to \<open>printWorld\<close> and
  \<open>exportWorld\<close> before it frees it.\<close>

definition goi ::
  "env \<Rightarrow> int \<Rightarrow> int \<Rightarrow> int list \<Rightarrow> int \<Rightarrow> int \<Rightarrow> int \<Rightarrow> int list \<Rightarrow> int list list \<Rightarrow>
     outcome \<times> heap" where
  "goi e nThreads nGenerations startWorld nRows nCols nInvasions invasionTimes invasionPlans =
     (case initialise e nThreads startWorld nRows nCols of
        Inl stop \<Rightarrow> stop
      | Inr (sharedStructs, items, st0) \<Rightarrow>
         (case generations e nThreads nGenerations nRows nCols nInvasions invasionTimes
                 invasionPlans st0 of
            Inl stop \<Rightarrow> stop
          | Inr st \<Rightarrow> cleanup sharedStructs items st))"

definition lastWorld ::
  "env \<Rightarrow> int \<Rightarrow> int \<Rightarrow> int list \<Rightarrow> int \<Rightarrow> int \<Rightarrow> int \<Rightarrow> int list \<Rightarrow> int list list \<Rightarrow>
     int list option" where
  "lastWorld e nThreads nGenerations startWorld nRows nCols nInvasions invasionTimes invasionPlans =
     (case initialise e nThreads startWorld nRows nCols of
        Inl stop \<Rightarrow> None
      | Inr (sharedStructs, items, st0) \<Rightarrow>
         (case generations e nThreads nGenerations nRows nCols nInvasions invasionTimes
                 invasionPlans st0 of
            Inl stop \<Rightarrow> None
          | Inr st \<Rightarrow> Some (curWorld st)))"

section \<open>Vocabulary of the specification\<close>

text \<open>A cell \<open>(row, col)\<close> of the grid, its index in the row-major buffer, a buffer of
  the grid's size, and a world whose cells all hold a faction id in \<open>[0, MAX_FACTIONS)\<close>.\<close>

definition inGrid :: "int \<Rightarrow> int \<Rightarrow> int \<Rightarrow> int \<Rightarrow> bool" where
  "inGrid nRows nCols row col \<longleftrightarrow> 0 \<le> row \<and> row < nRows \<and> 0 \<le> col \<and> col < nCols"

definition cellIndex :: "int \<Rightarrow> int \<Rightarrow> int \<Rightarrow> nat" where
  "cellIndex nCols row col = nat (row * nCols + col)"

definition wellSized :: "int list \<Rightarrow> int \<Rightarrow> int \<Rightarrow> bool" where
  "wellSized grid nRows nCols \<longleftrightarrow> length grid = nat (nRows * nCols)"

definition validWorld :: "int list \<Rightarrow> int \<Rightarrow> int \<Rightarrow> bool" where
  "validWorld grid nRows nCols \<longleftrightarrow>
     wellSized grid nRows nCols \<and> list_all (\<lambda>v. 0 \<le> v \<and> v < MAX_FACTIONS) grid"

text \<open>The specification's 8-neighbourhood: the positions around \<open>(row, col)\<close> that lie
  in the grid, the cell itself left out; nothing wraps around and a position outside the
  grid is no position at all. \<open>specCount\<close> is the number of these neighbours held by
  a faction, \<open>specHostile\<close> the sum of these numbers over the live factions other
  than \<open>own\<close>.\<close>

definition specNeighbours :: "int \<Rightarrow> int \<Rightarrow> int \<Rightarrow> int \<Rightarrow> (int \<times> int) list" where
  "specNeighbours nRows nCols row col =
     filter (\<lambda>(r, c). inGrid nRows nCols r c \<and> (r, c) \<noteq> (row, col))
       (List.product [row - 1, row, row + 1] [col - 1, col, col + 1])"

definition specCount :: "int list \<Rightarrow> int \<Rightarrow> int \<Rightarrow> int \<Rightarrow> int \<Rightarrow> int \<Rightarrow> int" where
  "specCount world nRows nCols row col faction =
     int (length (filter (\<lambda>(r, c). world ! cellIndex nCols r c = faction)
                    (specNeighbours nRows nCols row col)))"

definition specHostile :: "int list \<Rightarrow> int \<Rightarrow> int \<Rightarrow> int \<Rightarrow> int \<Rightarrow> int \<Rightarrow> int" where
  "specHostile world nRows nCols row col own =
     (\<Sum>faction\<leftarrow>[1 .. MAX_FACTIONS - 1].
        if faction = own then 0 else specCount world nRows nCols row col faction)"

text \<open>No invasion applies to a cell: there is no plan, or the plan holds 0 there.\<close>

definition noInvasionAt :: "int list option \<Rightarrow> int \<Rightarrow> int \<Rightarrow> int \<Rightarrow> int \<Rightarrow> bool" where
  "noInvasionAt invaders nRows nCols row col \<longleftrightarrow>
     (case invaders of
        None \<Rightarrow> True
      | Some plan \<Rightarrow> wellSized plan nRows nCols \<and> plan ! cellIndex nCols row col = 0)"

definition validInvaders :: "int list option \<Rightarrow> int \<Rightarrow> int \<Rightarrow> bool" where
  "validInvaders invaders nRows nCols \<longleftrightarrow>
     (case invaders of None \<Rightarrow> True | Some plan \<Rightarrow> validWorld plan nRows nCols)"

text \<open>The number of cell indices in a partition \<open>[startIdx, endIdx)\<close>.\<close>

definition partSize :: "int \<times> int \<Rightarrow> int" where
  "partSize p = snd p - fst p"

text \<open>What a read at any position yields on a valid world: the cell, or \<open>-1\<close> outside.\<close>

definition cellOrOutside :: "int list \<Rightarrow> int \<Rightarrow> int \<Rightarrow> int \<Rightarrow> int \<Rightarrow> int" where
  "cellOrOutside world nRows nCols r c =
     (if inGrid nRows nCols r c then world ! cellIndex nCols r c else - 1)"

section \<open>Properties of the rule engine\<close>

subsection \<open>Grid positions and buffer accesses\<close>

lemma index_in_grid:
  assumes "inGrid nRows nCols row col"
  shows "0 \<le> row * nCols + col \<and> row * nCols + col < nRows * nCols"
proof -
  from assms have a: "0 \<le> row" "row + 1 \<le> nRows" "0 \<le> col" "col < nCols"
    by (auto simp: inGrid_def)
  have "(row + 1) * nCols \<le> nRows * nCols"
    using a by (intro mult_right_mono) auto
  then have "row * nCols + col < nRows * nCols"
    using a by (simp add: algebra_simps)
  moreover have "0 \<le> row * nCols" using a by simp
  ultimately show ?thesis using a by simp
qed

lemma cellIndex_less:
  "inGrid nRows nCols row col \<Longrightarrow> wellSized grid nRows nCols \<Longrightarrow> cellIndex nCols row col < length grid"
  using index_in_grid [of nRows nCols row col] by (simp add: cellIndex_def wellSized_def)

lemma getValueAt_inGrid:
  "inGrid nRows nCols row col \<Longrightarrow> wellSized grid nRows nCols \<Longrightarrow>
   getValueAt grid nRows nCols row col = Inr (grid ! cellIndex nCols row col)"
  using cellIndex_less [of nRows nCols row col grid]
  by (auto simp: getValueAt_def inGrid_def cellIndex_def)

lemma setValueAt_inGrid:
  "inGrid nRows nCols row col \<Longrightarrow> wellSized grid nRows nCols \<Longrightarrow>
   setValueAt grid nRows nCols row col v = Inr (grid[cellIndex nCols row col := v])"
  using cellIndex_less [of nRows nCols row col grid]
  by (auto simp: setValueAt_def inGrid_def cellIndex_def)

lemma getValueAt_outside:
  "\<not> inGrid nRows nCols row col \<Longrightarrow> getValueAt grid nRows nCols row col = Inr (- 1)"
  by (auto simp: getValueAt_def inGrid_def)

lemma c_div_nonneg: "0 \<le> a \<Longrightarrow> 0 < b \<Longrightarrow> c_div a b = a div b"
  by (cases "a = 0") (simp_all add: c_div_def)

lemma getRow_cell:
  assumes "inGrid nRows nCols row col"
  shows "getRow nRows nCols (row * nCols + col) = row"
proof -
  from assms have a: "0 \<le> row" "0 \<le> col" "col < nCols" by (auto simp: inGrid_def)
  then have "0 \<le> row * nCols + col" "0 < nCols" by auto
  then have "c_div (row * nCols + col) nCols = (row * nCols + col) div nCols"
    by (rule c_div_nonneg)
  also have "\<dots> = row" using a by simp
  finally show ?thesis by (simp add: getRow_def)
qed

lemma getCol_cell:
  assumes "inGrid nRows nCols row col"
  shows "getCol nRows nCols (row * nCols + col) = col"
  using getRow_cell [OF assms] by (simp add: getCol_def getRow_def c_mod_def algebra_simps)

lemma cellStep_inGrid:
  assumes g: "inGrid nRows nCols row col" and w: "wellSized new nRows nCols"
    and n: "getNextState world invaders nRows nCols row col = Inr (v, d)"
  shows "cellStep world invaders nRows nCols (row * nCols + col) (new, toll) =
           Inr (new[cellIndex nCols row col := v], if d then toll + 1 else toll)"
proof -
  from g have "nCols \<noteq> 0" by (auto simp: inGrid_def)
  then show ?thesis
    by (simp add: cellStep_def getRow_cell [OF g] getCol_cell [OF g] n setValueAt_inGrid [OF g w])
qed

lemma getNextState_landed:
  assumes g: "inGrid nRows nCols row col"
    and w: "wellSized world nRows nCols" and p: "wellSized plan nRows nCols"
    and l: "plan ! cellIndex nCols row col \<noteq> 0"
  shows "getNextState world (Some plan) nRows nCols row col =
           Inr (plan ! cellIndex nCols row col, world ! cellIndex nCols row col \<noteq> 0)"
  using l by (simp add: getNextState_def getValueAt_inGrid [OF g w] getValueAt_inGrid [OF g p] DEAD_FACTION_def)

subsection \<open>The tally loops\<close>

lemma getValueAt_valid:
  assumes "wellSized world nRows nCols"
  shows "getValueAt world nRows nCols r c = Inr (cellOrOutside world nRows nCols r c)"
  using assms by (cases "inGrid nRows nCols r c")
    (simp_all add: getValueAt_inGrid getValueAt_outside cellOrOutside_def)

lemma cellOrOutside_range:
  assumes "validWorld world nRows nCols"
  shows "- 1 \<le> cellOrOutside world nRows nCols r c \<and> cellOrOutside world nRows nCols r c < 10"
proof (cases "inGrid nRows nCols r c")
  case True
  with assms have "cellIndex nCols r c < length world"
    by (simp add: validWorld_def cellIndex_less)
  then have "world ! cellIndex nCols r c \<in> set world" by simp
  with assms have "0 \<le> world ! cellIndex nCols r c \<and> world ! cellIndex nCols r c < 10"
    by (auto simp: validWorld_def list_all_iff MAX_FACTIONS_def)
  with True show ?thesis by (simp add: cellOrOutside_def)
next
  case False
  then show ?thesis by (simp add: cellOrOutside_def)
qed

lemma countCell_valid:
  assumes v: "validWorld world nRows nCols" and l: "length counts = 10"
  shows "\<exists>c'. countCell world nRows nCols r c counts = Inr c' \<and> length c' = 10 \<and>
           (\<forall>f<10. c' ! f = counts ! f + (if cellOrOutside world nRows nCols r c = int f then 1 else 0))"
proof -
  from v have w: "wellSized world nRows nCols" by (simp add: validWorld_def)
  show ?thesis
    using cellOrOutside_range [OF v, of r c] l
    by (auto simp: countCell_def getValueAt_valid [OF w] DEAD_FACTION_def incrCount_def nth_list_update)
qed

lemma inner_loop:
  assumes v: "validWorld world nRows nCols"
  shows "length counts = 10 \<Longrightarrow>
    \<exists>c'. forEach dxs (\<lambda>dx. countCell world nRows nCols r (col + dx)) counts = Inr c' \<and> length c' = 10 \<and>
       (\<forall>f<10. c' ! f = counts ! f + (\<Sum>dx\<leftarrow>dxs. if cellOrOutside world nRows nCols r (col + dx) = int f then 1 else 0))"
proof (induction dxs arbitrary: counts)
  case Nil
  then show ?case by simp
next
  case (Cons dx dxs)
  from countCell_valid [OF v Cons.prems, of r "col + dx"] obtain c1 where
    c1: "countCell world nRows nCols r (col + dx) counts = Inr c1" "length c1 = 10"
      "\<forall>f<10. c1 ! f = counts ! f + (if cellOrOutside world nRows nCols r (col + dx) = int f then 1 else 0)"
    by blast
  from Cons.IH [OF c1(2)] obtain c2 where
    c2: "forEach dxs (\<lambda>dx. countCell world nRows nCols r (col + dx)) c1 = Inr c2" "length c2 = 10"
      "\<forall>f<10. c2 ! f = c1 ! f + (\<Sum>dx\<leftarrow>dxs. if cellOrOutside world nRows nCols r (col + dx) = int f then 1 else 0)"
    by blast
  show ?case using c1 c2 by simp
qed

lemma outer_loop:
  assumes v: "validWorld world nRows nCols"
  shows "length counts = 10 \<Longrightarrow>
    \<exists>c'. forEach dys (\<lambda>dy. forEach dxs (\<lambda>dx. countCell world nRows nCols (row + dy) (col + dx))) counts = Inr c' \<and> length c' = 10 \<and>
       (\<forall>f<10. c' ! f = counts ! f + (\<Sum>dy\<leftarrow>dys. \<Sum>dx\<leftarrow>dxs. if cellOrOutside world nRows nCols (row + dy) (col + dx) = int f then 1 else 0))"
proof (induction dys arbitrary: counts)
  case Nil
  then show ?case by simp
next
  case (Cons dy dys)
  from inner_loop [OF v Cons.prems, of dxs "row + dy" col] obtain c1 where
    c1: "forEach dxs (\<lambda>dx. countCell world nRows nCols (row + dy) (col + dx)) counts = Inr c1" "length c1 = 10"
      "\<forall>f<10. c1 ! f = counts ! f + (\<Sum>dx\<leftarrow>dxs. if cellOrOutside world nRows nCols (row + dy) (col + dx) = int f then 1 else 0)"
    by blast
  from Cons.IH [OF c1(2)] obtain c2 where
    c2: "forEach dys (\<lambda>dy. forEach dxs (\<lambda>dx. countCell world nRows nCols (row + dy) (col + dx))) c1 = Inr c2" "length c2 = 10"
      "\<forall>f<10. c2 ! f = c1 ! f + (\<Sum>dy\<leftarrow>dys. \<Sum>dx\<leftarrow>dxs. if cellOrOutside world nRows nCols (row + dy) (col + dx) = int f then 1 else 0)"
    by blast
  show ?case using c1 c2 by simp
qed

subsection \<open>The tally against the specification's neighbourhood\<close>

lemma length_filter_filter_sum:
  "int (length (filter P (filter Q xs))) = (\<Sum>x\<leftarrow>xs. if Q x \<and> P x then 1 else 0)"
  by (induction xs) simp_all

lemma cellOrOutside_eq_iff:
  "0 \<le> f \<Longrightarrow> cellOrOutside world nRows nCols r c = f \<longleftrightarrow> inGrid nRows nCols r c \<and> world ! cellIndex nCols r c = f"
  by (auto simp: cellOrOutside_def)

lemma specCount_sum:
  assumes g: "inGrid nRows nCols row col" and f: "0 \<le> f"
  shows "specCount world nRows nCols row col f =
    (\<Sum>dy\<leftarrow>[- 1, 0, 1]. \<Sum>dx\<leftarrow>[- 1, 0, 1]. if cellOrOutside world nRows nCols (row + dy) (col + dx) = f then 1 else 0)
     - (if world ! cellIndex nCols row col = f then 1 else 0)"
  unfolding specCount_def specNeighbours_def length_filter_filter_sum
  using g
  by (simp add: cellOrOutside_eq_iff [OF f] split del: if_split cong: if_cong)

lemma tally_spec:
  assumes v: "validWorld world nRows nCols" and g: "inGrid nRows nCols row col"
  shows "\<exists>counts. neighborTally world nRows nCols row col (world ! cellIndex nCols row col) = Inr counts \<and>
           length counts = 10 \<and>
           (\<forall>f<10. counts ! f = specCount world nRows nCols row col (int f))"
proof -
  let ?cf = "world ! cellIndex nCols row col"
  have l0: "length (replicate (nat MAX_FACTIONS) (0::int)) = 10"
    by (simp add: MAX_FACTIONS_def)
  from outer_loop [OF v l0, of "[- 1, 0, 1]" "[- 1, 0, 1]" row col] obtain c1 where
    c1: "countNeighbors world nRows nCols row col = Inr c1" "length c1 = 10"
      "\<forall>f<10. c1 ! f = replicate (nat MAX_FACTIONS) 0 ! f +
          (\<Sum>dy\<leftarrow>[- 1, 0, 1]. \<Sum>dx\<leftarrow>[- 1, 0, 1].
             if cellOrOutside world nRows nCols (row + dy) (col + dx) = int f then 1 else 0)"
    unfolding countNeighbors_def by blast
  from v g have "cellIndex nCols row col < length world"
    by (simp add: validWorld_def cellIndex_less)
  then have "?cf \<in> set world" by simp
  with v have cf: "0 \<le> ?cf" "?cf < 10"
    by (auto simp: validWorld_def list_all_iff MAX_FACTIONS_def)
  then have d: "decrCount c1 ?cf = Inr (c1[nat ?cf := c1 ! nat ?cf - 1])"
    using c1(2) by (simp add: decrCount_def)
  have "c1[nat ?cf := c1 ! nat ?cf - 1] ! f = specCount world nRows nCols row col (int f)"
    if f: "f < 10" for f
  proof -
    have r: "replicate (nat MAX_FACTIONS) (0::int) ! f = 0"
      using f by (simp add: MAX_FACTIONS_def)
    have e: "(?cf = int f) = (nat ?cf = f)" using cf by auto
    have s: "c1 ! f = (\<Sum>dy\<leftarrow>[- 1, 0, 1]. \<Sum>dx\<leftarrow>[- 1, 0, 1].
             if cellOrOutside world nRows nCols (row + dy) (col + dx) = int f then 1 else 0)"
      using c1(3) f r by auto
    have "c1[nat ?cf := c1 ! nat ?cf - 1] ! f = c1 ! f - (if ?cf = int f then 1 else 0)"
      using f c1(2) cf unfolding e by (simp add: nth_list_update)
    also have "\<dots> = specCount world nRows nCols row col (int f)"
      by (simp only: specCount_sum [OF g, of "int f" world] of_nat_0_le_iff s)
    finally show ?thesis .
  qed
  with c1 d show ?thesis by (simp add: neighborTally_def)
qed

lemma foldl_hostile:
  "foldl (\<lambda>h f. if f = cf then h else h + g f) a fs = a + (\<Sum>f\<leftarrow>fs. if f = cf then 0 else g f)"
  for a :: int
  by (induction fs arbitrary: a) simp_all

lemma sum_indicator_distinct:
  "distinct fs \<Longrightarrow> (\<Sum>f\<leftarrow>fs. if f = cf then 0 else if v = f then 1 else 0) =
     (if v \<in> set fs \<and> v \<noteq> cf then 1 else (0::int))"
  by (induction fs) auto

lemma sum_counts_hostile:
  assumes "distinct fs"
  shows "(\<Sum>f\<leftarrow>fs. if f = cf then 0 else int (length (filter (\<lambda>p. val p = f) ps))) =
         int (length (filter (\<lambda>p. val p \<in> set fs \<and> val p \<noteq> cf) ps))"
proof (induction ps)
  case Nil
  then show ?case by (simp cong: if_cong)
next
  case (Cons p ps)
  have "(\<Sum>f\<leftarrow>fs. if f = cf then 0 else int (length (filter (\<lambda>p. val p = f) (p # ps)))) =
        (\<Sum>f\<leftarrow>fs. (if f = cf then 0 else if val p = f then 1 else 0) +
                   (if f = cf then 0 else int (length (filter (\<lambda>p. val p = f) ps))))"
    by (intro arg_cong [where f = sum_list] map_cong) auto
  also have "\<dots> = (if val p \<in> set fs \<and> val p \<noteq> cf then 1 else 0) +
                   int (length (filter (\<lambda>p. val p \<in> set fs \<and> val p \<noteq> cf) ps))"
    by (simp only: sum_list_addf sum_indicator_distinct [OF assms] Cons.IH)
  finally show ?case by simp
qed

lemma foldl_birth:
  "foldl (\<lambda>acc f. if P f then f else acc) a fs =
     (if filter P fs = [] then a else last (filter P fs))"
  by (induction fs arbitrary: a) simp_all

lemma sorted_le_last:
  fixes xs :: "int list"
  shows "sorted xs \<Longrightarrow> x \<in> set xs \<Longrightarrow> x \<le> last xs"
  by (induction xs) auto

lemma last_sorted_Max:
  fixes xs :: "int list"
  assumes "sorted xs" "xs \<noteq> []"
  shows "last xs = Max (set xs)"
proof -
  have "\<And>x. x \<in> set xs \<Longrightarrow> x \<le> last xs" using assms(1) by (rule sorted_le_last)
  moreover have "last xs \<in> set xs" using assms(2) by simp
  ultimately show ?thesis by (intro Max_eqI [symmetric]) auto
qed

lemma factions_upto: "[DEAD_FACTION + 1 .. MAX_FACTIONS - 1] = [1..9]"
  by (simp add: DEAD_FACTION_def MAX_FACTIONS_def)

lemma birthScan_Max:
  "birthScan counts =
     (if {f. 1 \<le> f \<and> f < MAX_FACTIONS \<and> counts ! nat f = 3} = {} then 0
      else Max {f. 1 \<le> f \<and> f < MAX_FACTIONS \<and> counts ! nat f = 3})"
proof -
  let ?P = "\<lambda>f. isBirthable (counts ! nat f)"
  let ?Q = "{f. 1 \<le> f \<and> f < MAX_FACTIONS \<and> counts ! nat f = 3}"
  have s: "set (filter ?P [1..9]) = ?Q"
    by (auto simp: isBirthable_def MAX_FACTIONS_def)
  have b: "birthScan counts = (if filter ?P [1..9] = [] then 0 else last (filter ?P [1..9]))"
    unfolding birthScan_def factions_upto foldl_birth by (simp only: DEAD_FACTION_def)
  show ?thesis
  proof (cases "filter ?P [1..9] = []")
    case True
    then have "set (filter ?P [1..9]) = {}" by (simp only: set_empty)
    then have "?Q = {}" by (simp only: s)
    with True b show ?thesis by simp
  next
    case False
    have "sorted (filter ?P [1..9])" by (rule sorted_wrt_filter) (rule sorted_upto)
    then have "last (filter ?P [1..9]) = Max (set (filter ?P [1..9]))"
      using False by (rule last_sorted_Max)
    moreover from False have "set (filter ?P [1..9]) \<noteq> {}" using set_empty by blast
    ultimately show ?thesis using False b unfolding s by auto
  qed
qed

subsection \<open>The decision after the tally\<close>

lemma getNextState_rules:
  assumes g: "inGrid nRows nCols row col" and w: "wellSized world nRows nCols"
    and n: "noInvasionAt invaders nRows nCols row col"
  shows "getNextState world invaders nRows nCols row col =
           neighborRules world nRows nCols row col (world ! cellIndex nCols row col)"
proof (cases invaders)
  case None
  then show ?thesis by (simp add: getNextState_def getValueAt_inGrid [OF g w])
next
  case (Some plan)
  with n have p: "wellSized plan nRows nCols" "plan ! cellIndex nCols row col = 0"
    by (simp_all add: noInvasionAt_def)
  show ?thesis
    by (simp add: Some getNextState_def getValueAt_inGrid [OF g w] getValueAt_inGrid [OF g p(1)]
          p(2) DEAD_FACTION_def)
qed

lemma hostileCount_spec:
  assumes c: "\<forall>f<10. counts ! f = specCount world nRows nCols row col (int f)"
  shows "hostileCount counts own = specHostile world nRows nCols row col own"
proof -
  have "(\<Sum>f\<leftarrow>[1..9]. if f = own then 0 else counts ! nat f) =
        (\<Sum>f\<leftarrow>[1..9]. if f = own then 0 else specCount world nRows nCols row col f)"
  proof (intro arg_cong [where f = sum_list] map_cong refl)
    fix f :: int assume "f \<in> set [1..9]"
    then have "nat f < 10" "int (nat f) = f" by auto
    with c have "counts ! nat f = specCount world nRows nCols row col f" by metis
    then show "(if f = own then 0 else counts ! nat f) =
               (if f = own then 0 else specCount world nRows nCols row col f)" by simp
  qed
  then show ?thesis
    unfolding hostileCount_def specHostile_def factions_upto foldl_hostile
    by (simp add: MAX_FACTIONS_def del: upto_rec_numeral)
qed

lemma specHostile_neighbours:
  assumes v: "validWorld world nRows nCols"
  shows "specHostile world nRows nCols row col own =
     int (length (filter (\<lambda>(r, c). world ! cellIndex nCols r c \<noteq> 0 \<and>
                                    world ! cellIndex nCols r c \<noteq> own)
                    (specNeighbours nRows nCols row col)))"
proof -
  let ?val = "\<lambda>p. world ! cellIndex nCols (fst p) (snd p)"
  let ?N = "specNeighbours nRows nCols row col"
  have d: "distinct [1..(9::int)]" by (rule distinct_upto)
  have sc: "specCount world nRows nCols row col f = int (length (filter (\<lambda>p. ?val p = f) ?N))" for f
    by (simp add: specCount_def case_prod_unfold)
  have "specHostile world nRows nCols row col own =
        int (length (filter (\<lambda>p. ?val p \<in> set [1..9] \<and> ?val p \<noteq> own) ?N))"
    unfolding specHostile_def sc
    using sum_counts_hostile [OF d, of own ?val ?N]
    by (simp add: MAX_FACTIONS_def del: upto_rec_numeral set_upto)
  also have "filter (\<lambda>p. ?val p \<in> set [1..9] \<and> ?val p \<noteq> own) ?N =
             filter (\<lambda>p. ?val p \<noteq> 0 \<and> ?val p \<noteq> own) ?N"
  proof (rule filter_cong [OF refl])
    fix p assume "p \<in> set ?N"
    then have "inGrid nRows nCols (fst p) (snd p)"
      by (auto simp: specNeighbours_def simp del: product.simps)
    with v have "cellIndex nCols (fst p) (snd p) < length world"
      by (simp add: validWorld_def cellIndex_less)
    then have "?val p \<in> set world" by simp
    with v have "0 \<le> ?val p \<and> ?val p < 10"
      by (auto simp: validWorld_def list_all_iff MAX_FACTIONS_def)
    then show "(?val p \<in> set [1..9] \<and> ?val p \<noteq> own) = (?val p \<noteq> 0 \<and> ?val p \<noteq> own)"
      by auto
  qed
  finally show ?thesis by (simp add: case_prod_unfold)
qed

lemma cell_faction_range:
  assumes v: "validWorld world nRows nCols" and g: "inGrid nRows nCols row col"
  shows "0 \<le> world ! cellIndex nCols row col \<and> world ! cellIndex nCols row col < MAX_FACTIONS"
proof -
  from v g have "cellIndex nCols row col < length world"
    by (simp add: validWorld_def cellIndex_less)
  then have "world ! cellIndex nCols row col \<in> set world" by simp
  with v show ?thesis by (auto simp: validWorld_def list_all_iff)
qed

lemma neighborRules_spec:
  assumes v: "validWorld world nRows nCols" and g: "inGrid nRows nCols row col"
  shows "neighborRules world nRows nCols row col (world ! cellIndex nCols row col) =
     (let own = world ! cellIndex nCols row col;
          births = {f. 1 \<le> f \<and> f < MAX_FACTIONS \<and> specCount world nRows nCols row col f = 3}
      in if own = 0 then Inr (if births = {} then 0 else Max births, False)
         else if specHostile world nRows nCols row col own > 0 then Inr (0, True)
         else if specCount world nRows nCols row col own = 2 \<or>
                 specCount world nRows nCols row col own = 3 then Inr (own, False)
         else Inr (0, False))"
proof -
  let ?own = "world ! cellIndex nCols row col"
  from tally_spec [OF v g] obtain counts where
    t: "neighborTally world nRows nCols row col ?own = Inr counts"
    and c: "\<forall>f<10. counts ! f = specCount world nRows nCols row col (int f)"
    by blast
  have cs: "counts ! nat f = specCount world nRows nCols row col f" if "0 \<le> f" "f < MAX_FACTIONS" for f
  proof -
    from that have "nat f < 10" "int (nat f) = f" by (auto simp: MAX_FACTIONS_def)
    with c show ?thesis by metis
  qed
  have b: "{f. 1 \<le> f \<and> f < MAX_FACTIONS \<and> counts ! nat f = 3} =
           {f. 1 \<le> f \<and> f < MAX_FACTIONS \<and> specCount world nRows nCols row col f = 3}"
    using cs by auto
  have h: "hostileCount counts ?own = specHostile world nRows nCols row col ?own"
    using c by (rule hostileCount_spec)
  have o: "counts ! nat ?own = specCount world nRows nCols row col ?own"
    using cell_faction_range [OF v g] by (intro cs) auto
  have r: "neighborRules world nRows nCols row col ?own =
      (if ?own = DEAD_FACTION then Inr (birthScan counts, False)
       else if willFight (hostileCount counts ?own) then Inr (DEAD_FACTION, True)
       else if \<not> isSurvivable (counts ! nat ?own) then Inr (DEAD_FACTION, False)
       else Inr (?own, False))"
    by (simp add: neighborRules_def t)
  show ?thesis
    unfolding r birthScan_Max b h o
    by (simp add: DEAD_FACTION_def willFight_def isSurvivable_def Let_def
          del: Collect_empty_eq)
qed

subsection \<open>The claims about the rule engine\<close>

lemma births_Max_range:
  assumes "{f. 1 \<le> f \<and> f < MAX_FACTIONS \<and> P f} \<noteq> {}"
  shows "1 \<le> Max {f. 1 \<le> f \<and> f < MAX_FACTIONS \<and> P f} \<and>
         Max {f. 1 \<le> f \<and> f < MAX_FACTIONS \<and> P f} < MAX_FACTIONS"
proof -
  let ?B = "{f. 1 \<le> f \<and> f < MAX_FACTIONS \<and> P f}"
  have "?B \<subseteq> {1..MAX_FACTIONS}" by auto
  then have "finite ?B" by (rule finite_subset) simp
  then have "Max ?B \<in> ?B" using assms by (rule Max_in)
  then show ?thesis by simp
qed

lemma births_filter:
  "{f. 1 \<le> f \<and> f < MAX_FACTIONS \<and> P f} = set (filter P [1..9])"
  by (auto simp: MAX_FACTIONS_def)

lemma neighborRules_range:
  assumes v: "validWorld world nRows nCols" and g: "inGrid nRows nCols row col"
  shows "\<exists>faction died.
           neighborRules world nRows nCols row col (world ! cellIndex nCols row col) =
             Inr (faction, died) \<and> 0 \<le> faction \<and> faction < MAX_FACTIONS"
proof -
  let ?B = "{f. 1 \<le> f \<and> f < MAX_FACTIONS \<and> specCount world nRows nCols row col f = 3}"
  have m: "0 < MAX_FACTIONS" by (simp add: MAX_FACTIONS_def)
  have b: "?B \<noteq> {} \<Longrightarrow> 0 \<le> Max ?B \<and> Max ?B < MAX_FACTIONS"
    using births_Max_range [of "\<lambda>f. specCount world nRows nCols row col f = 3"] by simp
  show ?thesis
    unfolding neighborRules_spec [OF v g] Let_def
    using cell_faction_range [OF v g] b m by (auto simp del: Collect_empty_eq)
qed

text \<open>
  C1. A live cell that no invasion lands on and that has at least one neighbour of
  another live faction (the sum of the neighbourhood counts of the live factions other
  than its own is positive) dies by fighting: \<open>getNextState\<close> returns faction 0 with
  the flag set, whatever the number of friendly neighbours, and the worker's step for
  this cell adds exactly one to the death toll.
\<close>

theorem hostile_neighbour_kills:
  assumes "validWorld world nRows nCols" and "inGrid nRows nCols row col"
    and "noInvasionAt invaders nRows nCols row col"
    and "world ! cellIndex nCols row col \<noteq> 0"
    and "specHostile world nRows nCols row col (world ! cellIndex nCols row col) > 0"
    and "wellSized buf nRows nCols"
  shows "getNextState world invaders nRows nCols row col = Inr (0, True) \<and>
         cellStep world invaders nRows nCols (row * nCols + col) (buf, toll) =
           Inr (buf[cellIndex nCols row col := 0], toll + 1)"
proof -
  from assms(1) have w: "wellSized world nRows nCols" by (simp add: validWorld_def)
  have n: "getNextState world invaders nRows nCols row col = Inr (0, True)"
    using assms(4,5)
    by (simp add: getNextState_rules [OF assms(2) w assms(3)]
          neighborRules_spec [OF assms(1,2)] Let_def)
  from cellStep_inGrid [OF assms(2) assms(6) n] n show ?thesis by simp
qed

theorem hostile_neighbour_kills_witness:
  "validWorld [1, 2, 1, 1] 2 2 \<and> inGrid 2 2 0 0 \<and> noInvasionAt (Some [0, 3, 0, 0]) 2 2 0 0 \<and>
   [1, 2, 1, 1] ! cellIndex 2 0 0 \<noteq> (0::int) \<and>
   specHostile [1, 2, 1, 1] 2 2 0 0 ([1, 2, 1, 1] ! cellIndex 2 0 0) > 0 \<and>
   wellSized [7, 7, 7, 7] 2 2 \<and>
   getNextState [1, 2, 1, 1] (Some [0, 3, 0, 0]) 2 2 0 0 = Inr (0, True) \<and>
   cellStep [1, 2, 1, 1] (Some [0, 3, 0, 0]) 2 2 (0 * 2 + 0) ([7, 7, 7, 7], 5) =
     Inr ([0, 7, 7, 7], 6)"
proof -
  have h1: "validWorld [1, 2, 1, 1] 2 2"
    by (simp add: validWorld_def wellSized_def MAX_FACTIONS_def)
  have h2: "inGrid 2 2 0 0" by (simp add: inGrid_def)
  have h3: "noInvasionAt (Some [0, 3, 0, 0]) 2 2 0 0"
    by (simp add: noInvasionAt_def wellSized_def cellIndex_def)
  have h4: "[1, 2, 1, 1] ! cellIndex 2 0 0 \<noteq> (0::int)" by (simp add: cellIndex_def)
  have h5: "specHostile [1, 2, 1, 1] 2 2 0 0 ([1, 2, 1, 1] ! cellIndex 2 0 0) > 0"
    by code_simp
  have h6: "wellSized [7, 7, 7, 7] 2 2" by (simp add: wellSized_def)
  from hostile_neighbour_kills [OF h1 h2 h3 h4 h5 h6, of 5] h1 h2 h3 h4 h5 h6
  show ?thesis by (simp add: cellIndex_def)
qed

text \<open>
  C2. A live cell that no invasion lands on and that has no neighbour of another live
  faction keeps its faction exactly when 2 or 3 of its neighbours are of its own faction;
  otherwise it becomes 0. The flag is false either way, so the worker's step leaves the
  death toll as it was.
\<close>

theorem population_rule:
  assumes "validWorld world nRows nCols" and "inGrid nRows nCols row col"
    and "noInvasionAt invaders nRows nCols row col"
    and "world ! cellIndex nCols row col \<noteq> 0"
    and "specHostile world nRows nCols row col (world ! cellIndex nCols row col) = 0"
    and "wellSized buf nRows nCols"
  shows "(let own = world ! cellIndex nCols row col;
              friendly = specCount world nRows nCols row col own;
              result = (if friendly = 2 \<or> friendly = 3 then own else 0)
          in getNextState world invaders nRows nCols row col = Inr (result, False) \<and>
             (result = own \<longleftrightarrow> friendly = 2 \<or> friendly = 3) \<and>
             cellStep world invaders nRows nCols (row * nCols + col) (buf, toll) =
               Inr (buf[cellIndex nCols row col := result], toll))"
proof -
  let ?own = "world ! cellIndex nCols row col"
  let ?friendly = "specCount world nRows nCols row col ?own"
  let ?result = "if ?friendly = 2 \<or> ?friendly = 3 then ?own else 0"
  from assms(1) have w: "wellSized world nRows nCols" by (simp add: validWorld_def)
  have n: "getNextState world invaders nRows nCols row col = Inr (?result, False)"
    using assms(4,5)
    by (simp add: getNextState_rules [OF assms(2) w assms(3)]
          neighborRules_spec [OF assms(1,2)] Let_def)
  from cellStep_inGrid [OF assms(2) assms(6) n] n assms(4) show ?thesis
    by (simp add: Let_def)
qed

theorem population_rule_witness:
  "validWorld [1, 1, 1, 0] 2 2 \<and> inGrid 2 2 0 0 \<and> noInvasionAt None 2 2 0 0 \<and>
   [1, 1, 1, 0] ! cellIndex 2 0 0 \<noteq> (0::int) \<and>
   specHostile [1, 1, 1, 0] 2 2 0 0 ([1, 1, 1, 0] ! cellIndex 2 0 0) = 0 \<and>
   wellSized [7, 7, 7, 7] 2 2 \<and>
   specCount [1, 1, 1, 0] 2 2 0 0 1 = 2 \<and>
   getNextState [1, 1, 1, 0] None 2 2 0 0 = Inr (1, False) \<and>
   cellStep [1, 1, 1, 0] None 2 2 (0 * 2 + 0) ([7, 7, 7, 7], 5) = Inr ([1, 7, 7, 7], 5)"
proof -
  have h1: "validWorld [1, 1, 1, 0] 2 2"
    by (simp add: validWorld_def wellSized_def MAX_FACTIONS_def)
  have h2: "inGrid 2 2 0 0" by (simp add: inGrid_def)
  have h3: "noInvasionAt None 2 2 0 0" by (simp add: noInvasionAt_def)
  have h4: "[1, 1, 1, 0] ! cellIndex 2 0 0 \<noteq> (0::int)" by (simp add: cellIndex_def)
  have h5: "specHostile [1, 1, 1, 0] 2 2 0 0 ([1, 1, 1, 0] ! cellIndex 2 0 0) = 0"
    by code_simp
  have h6: "wellSized [7, 7, 7, 7] 2 2" by (simp add: wellSized_def)
  have c: "specCount [1, 1, 1, 0] 2 2 0 0 1 = 2" by code_simp
  have i: "[1, 1, 1, 0] ! cellIndex 2 0 0 = (1::int)" by (simp add: cellIndex_def)
  from population_rule [OF h1 h2 h3 h4 h5 h6, of 5] h1 h2 h3 h4 h5 h6 c
  show ?thesis unfolding Let_def i c by (simp add: cellIndex_def)
qed

text \<open>
  C3. A dead cell that no invasion lands on takes the highest faction id in
  \<open>1 .. MAX_FACTIONS - 1\<close> that holds exactly 3 of its neighbours, and stays dead when
  no faction does; the flag is false in both cases and the death toll is unchanged.
\<close>

theorem birth_highest_faction:
  assumes "validWorld world nRows nCols" and "inGrid nRows nCols row col"
    and "noInvasionAt invaders nRows nCols row col"
    and "world ! cellIndex nCols row col = 0"
    and "wellSized buf nRows nCols"
  shows "(let births = {f. 1 \<le> f \<and> f < MAX_FACTIONS \<and>
                           specCount world nRows nCols row col f = 3};
              result = (if births = {} then 0 else Max births)
          in getNextState world invaders nRows nCols row col = Inr (result, False) \<and>
             cellStep world invaders nRows nCols (row * nCols + col) (buf, toll) =
               Inr (buf[cellIndex nCols row col := result], toll))"
proof -
  let ?B = "{f. 1 \<le> f \<and> f < MAX_FACTIONS \<and> specCount world nRows nCols row col f = 3}"
  from assms(1) have w: "wellSized world nRows nCols" by (simp add: validWorld_def)
  have "neighborRules world nRows nCols row col (world ! cellIndex nCols row col) =
          Inr (if ?B = {} then 0 else Max ?B, False)"
    unfolding neighborRules_spec [OF assms(1,2)] Let_def
    using assms(4) by (simp del: Collect_empty_eq)
  then have n: "getNextState world invaders nRows nCols row col =
             Inr (if ?B = {} then 0 else Max ?B, False)"
    by (simp only: getNextState_rules [OF assms(2) w assms(3)])
  from cellStep_inGrid [OF assms(2) assms(5) n] n show ?thesis
    by (simp add: Let_def del: Collect_empty_eq)
qed


theorem birth_highest_faction_witness:
  "validWorld [1, 1, 1, 2, 0, 2, 2, 0, 0] 3 3 \<and> inGrid 3 3 1 1 \<and> noInvasionAt None 3 3 1 1 \<and>
   [1, 1, 1, 2, 0, 2, 2, 0, 0] ! cellIndex 3 1 1 = (0::int) \<and>
   wellSized [7, 7, 7, 7, 7, 7, 7, 7, 7] 3 3 \<and>
   getNextState [1, 1, 1, 2, 0, 2, 2, 0, 0] None 3 3 1 1 = Inr (2, False) \<and>
   cellStep [1, 1, 1, 2, 0, 2, 2, 0, 0] None 3 3 (1 * 3 + 1) ([7, 7, 7, 7, 7, 7, 7, 7, 7], 5) =
     Inr ([7, 7, 7, 7, 2, 7, 7, 7, 7], 5)"
proof -
  let ?W = "[1, 1, 1, 2, 0, 2, 2, 0, 0] :: int list"
  have h1: "validWorld ?W 3 3"
    by (simp add: validWorld_def wellSized_def MAX_FACTIONS_def)
  have h2: "inGrid 3 3 1 1" by (simp add: inGrid_def)
  have h3: "noInvasionAt None 3 3 1 1" by (simp add: noInvasionAt_def)
  have h4: "?W ! cellIndex 3 1 1 = 0" by (simp add: cellIndex_def)
  have h5: "wellSized [7, 7, 7, 7, 7, 7, 7, 7, 7] 3 3" by (simp add: wellSized_def)
  have f: "filter (\<lambda>f. specCount ?W 3 3 1 1 f = 3) [1..9] = [1, 2]" by code_simp
  have b: "{f. 1 \<le> f \<and> f < MAX_FACTIONS \<and> specCount ?W 3 3 1 1 f = 3} = {1, 2}"
    unfolding births_filter f by simp
  from birth_highest_faction [OF h1 h2 h3 h4 h5, of 5] h1 h2 h3 h4 h5
  show ?thesis unfolding Let_def b by (simp add: cellIndex_def)
qed

text \<open>
  C4. Where the invasion plan holds a nonzero value, \<open>getNextState\<close> returns that value
  without looking at any neighbour, and the flag is set exactly when the cell was
  occupied: the worker's step adds one to the death toll for a live cell and nothing for
  a dead one.
\<close>

theorem invasion_overwrites:
  assumes "inGrid nRows nCols row col"
    and "wellSized world nRows nCols" and "wellSized plan nRows nCols"
    and "plan ! cellIndex nCols row col \<noteq> 0"
    and "wellSized buf nRows nCols"
  shows "getNextState world (Some plan) nRows nCols row col =
           Inr (plan ! cellIndex nCols row col, world ! cellIndex nCols row col \<noteq> 0) \<and>
         cellStep world (Some plan) nRows nCols (row * nCols + col) (buf, toll) =
           Inr (buf[cellIndex nCols row col := plan ! cellIndex nCols row col],
                if world ! cellIndex nCols row col \<noteq> 0 then toll + 1 else toll)"
proof -
  note n = getNextState_landed [OF assms(1-4)]
  from cellStep_inGrid [OF assms(1) assms(5) n] n show ?thesis by simp
qed

theorem invasion_overwrites_witness:
  "inGrid 2 2 1 0 \<and> wellSized [1, 1, 0, 1] 2 2 \<and> wellSized [0, 0, 3, 0] 2 2 \<and>
   [0, 0, 3, 0] ! cellIndex 2 1 0 \<noteq> (0::int) \<and> wellSized [7, 7, 7, 7] 2 2 \<and>
   getNextState [1, 1, 0, 1] (Some [0, 0, 3, 0]) 2 2 1 0 = Inr (3, False) \<and>
   cellStep [1, 1, 0, 1] (Some [0, 0, 3, 0]) 2 2 (1 * 2 + 0) ([7, 7, 7, 7], 5) =
     Inr ([7, 7, 3, 7], 5)"
proof -
  have h1: "inGrid 2 2 1 0" by (simp add: inGrid_def)
  have h2: "wellSized [1, 1, 0, 1] 2 2" by (simp add: wellSized_def)
  have h3: "wellSized [0, 0, 3, 0] 2 2" by (simp add: wellSized_def)
  have h4: "[0, 0, 3, 0] ! cellIndex 2 1 0 \<noteq> (0::int)" by (simp add: cellIndex_def)
  have h5: "wellSized [7, 7, 7, 7] 2 2" by (simp add: wellSized_def)
  from invasion_overwrites [OF h1 h2 h3 h4 h5, of 5] h1 h2 h3 h4 h5
  show ?thesis by (simp add: cellIndex_def)
qed

text \<open>
  C5. The tally of \<open>getNextState\<close> (the counters after the adjustment for the cell
  itself) holds, for every faction id, the number of the cell's neighbours in the
  specification's sense that belong to that faction: only positions inside the grid are
  counted, nothing wraps around, a position outside the grid is not counted for the dead
  faction either, and the cell does not count itself.
\<close>

theorem tally_counts_grid_neighbours:
  assumes "validWorld world nRows nCols" and "inGrid nRows nCols row col"
  shows "\<exists>counts.
           neighborTally world nRows nCols row col (world ! cellIndex nCols row col) =
             Inr counts \<and>
           length counts = nat MAX_FACTIONS \<and>
           (\<forall>f<nat MAX_FACTIONS. counts ! f = specCount world nRows nCols row col (int f))"
  using tally_spec [OF assms] by (simp add: MAX_FACTIONS_def)

theorem tally_counts_grid_neighbours_witness:
  "validWorld [1, 2, 0, 1] 2 2 \<and> inGrid 2 2 0 0 \<and>
   neighborTally [1, 2, 0, 1] 2 2 0 0 1 = Inr [1, 1, 1, 0, 0, 0, 0, 0, 0, 0] \<and>
   map (\<lambda>f. specCount [1, 2, 0, 1] 2 2 0 0 (int f)) [0..<nat MAX_FACTIONS] =
     [1, 1, 1, 0, 0, 0, 0, 0, 0, 0]"
proof -
  have h1: "validWorld [1, 2, 0, 1] 2 2"
    by (simp add: validWorld_def wellSized_def MAX_FACTIONS_def)
  have h2: "inGrid 2 2 0 0" by (simp add: inGrid_def)
  have t: "neighborTally [1, 2, 0, 1] 2 2 0 0 1 = Inr [1, 1, 1, 0, 0, 0, 0, 0, 0, 0]"
    by code_simp
  from tally_counts_grid_neighbours [OF h1 h2] t
  have c: "\<forall>f<nat MAX_FACTIONS.
             [1, 1, 1, 0, 0, 0, 0, 0, 0, 0] ! f = specCount [1, 2, 0, 1] 2 2 0 0 (int f)"
    by (simp add: cellIndex_def)
  have "map (\<lambda>f. specCount [1, 2, 0, 1] 2 2 0 0 (int f)) [0..<nat MAX_FACTIONS] =
        map (\<lambda>f. [1, 1, 1, 0, 0, 0, 0, 0, 0, 0] ! f) [0..<nat MAX_FACTIONS]"
    using c by (intro map_cong refl) simp
  also have "\<dots> = [1, 1, 1, 0, 0, 0, 0, 0, 0, 0]"
    by (simp add: MAX_FACTIONS_def upt_rec)
  finally show ?thesis using h1 h2 t by simp
qed

text \<open>
  C9. On a world and an invasion plan whose cells all hold a faction id in
  \<open>[0, MAX_FACTIONS)\<close>, \<open>getNextState\<close> returns a result for every cell of the
  grid: no read of a grid and no access to \<open>neighborCounts\<close>, the adjustment for the
  cell itself included, leaves its array. The faction it returns is again in
  \<open>[0, MAX_FACTIONS)\<close>.
\<close>

theorem getNextState_total:
  assumes "validWorld world nRows nCols" and "validInvaders invaders nRows nCols"
    and "inGrid nRows nCols row col"
  shows "\<exists>faction died.
           getNextState world invaders nRows nCols row col = Inr (faction, died) \<and>
           0 \<le> faction \<and> faction < MAX_FACTIONS"
proof -
  from assms(1) have w: "wellSized world nRows nCols" by (simp add: validWorld_def)
  show ?thesis
  proof (cases "noInvasionAt invaders nRows nCols row col")
    case True
    show ?thesis
      unfolding getNextState_rules [OF assms(3) w True]
      by (rule neighborRules_range [OF assms(1,3)])
  next
    case False
    then obtain plan where p: "invaders = Some plan"
      by (cases invaders) (auto simp: noInvasionAt_def)
    with assms(2) have v: "validWorld plan nRows nCols" by (simp add: validInvaders_def)
    then have pw: "wellSized plan nRows nCols" by (simp add: validWorld_def)
    with False p have l: "plan ! cellIndex nCols row col \<noteq> 0"
      by (simp add: noInvasionAt_def)
    from getNextState_landed [OF assms(3) w pw l] cell_faction_range [OF v assms(3)] p
    show ?thesis by simp
  qed
qed

theorem getNextState_total_witness:
  "validWorld [9, 9, 9, 9] 2 2 \<and> validInvaders (Some [0, 0, 0, 0]) 2 2 \<and> inGrid 2 2 1 1 \<and>
   (\<exists>faction died.
      getNextState [9, 9, 9, 9] (Some [0, 0, 0, 0]) 2 2 1 1 = Inr (faction, died) \<and>
      0 \<le> faction \<and> faction < MAX_FACTIONS)"
proof -
  have h1: "validWorld [9, 9, 9, 9] 2 2"
    by (simp add: validWorld_def wellSized_def MAX_FACTIONS_def)
  have h2: "validInvaders (Some [0, 0, 0, 0]) 2 2"
    by (simp add: validInvaders_def validWorld_def wellSized_def MAX_FACTIONS_def)
  have h3: "inGrid 2 2 1 1" by (simp add: inGrid_def)
  from getNextState_total [OF h1 h2 h3] h1 h2 h3 show ?thesis by simp
qed

text \<open>
  C10. An invasion plan that holds, at a live cell, the very faction that occupies it
  still sets the flag: \<open>getNextState\<close> returns that faction with the flag true, and
  the worker's step adds one to the death toll although the cell keeps its owner.
\<close>

theorem invasion_by_own_faction:
  assumes "inGrid nRows nCols row col"
    and "wellSized world nRows nCols" and "wellSized plan nRows nCols"
    and "plan ! cellIndex nCols row col = world ! cellIndex nCols row col"
    and "world ! cellIndex nCols row col \<noteq> 0"
    and "wellSized buf nRows nCols"
  shows "getNextState world (Some plan) nRows nCols row col =
           Inr (world ! cellIndex nCols row col, True) \<and>
         cellStep world (Some plan) nRows nCols (row * nCols + col) (buf, toll) =
           Inr (buf[cellIndex nCols row col := world ! cellIndex nCols row col], toll + 1)"
proof -
  from assms(4,5) have l: "plan ! cellIndex nCols row col \<noteq> 0" by simp
  from getNextState_landed [OF assms(1-3) l] assms(4,5)
  have n: "getNextState world (Some plan) nRows nCols row col =
             Inr (world ! cellIndex nCols row col, True)" by simp
  from cellStep_inGrid [OF assms(1) assms(6) n] n show ?thesis by simp
qed

theorem invasion_by_own_faction_witness:
  "inGrid 1 2 0 1 \<and> wellSized [0, 4] 1 2 \<and> wellSized [3, 4] 1 2 \<and>
   [3, 4] ! cellIndex 2 0 1 = [0, 4] ! cellIndex 2 0 1 \<and>
   [0, 4] ! cellIndex 2 0 1 \<noteq> (0::int) \<and> wellSized [7, 7] 1 2 \<and>
   getNextState [0, 4] (Some [3, 4]) 1 2 0 1 = Inr (4, True) \<and>
   cellStep [0, 4] (Some [3, 4]) 1 2 (0 * 2 + 1) ([7, 7], 5) = Inr ([7, 4], 6)"
proof -
  have h1: "inGrid 1 2 0 1" by (simp add: inGrid_def)
  have h2: "wellSized [0, 4] 1 2" by (simp add: wellSized_def)
  have h3: "wellSized [3, 4] 1 2" by (simp add: wellSized_def)
  have h4: "[3, 4] ! cellIndex 2 0 1 = ([0, 4] ! cellIndex 2 0 1 :: int)"
    by (simp add: cellIndex_def)
  have h5: "[0, 4] ! cellIndex 2 0 1 \<noteq> (0::int)" by (simp add: cellIndex_def)
  have h6: "wellSized [7, 7] 1 2" by (simp add: wellSized_def)
  from invasion_by_own_faction [OF h1 h2 h3 h4 h5 h6, of 5] h1 h2 h3 h4 h5 h6
  show ?thesis by (simp add: cellIndex_def)
qed

section \<open>Properties of the coordinator\<close>

subsection \<open>The partitions\<close>

lemma partition_loop:
  "foldl (\<lambda>(index, items) i. (index + ts, items @ [(index, min (index + ts) tot)]))
      (index0, items0) [0..<n] =
   (index0 + int n * ts,
    items0 @ map (\<lambda>i. (index0 + int i * ts, min (index0 + (int i + 1) * ts) tot)) [0..<n])"
  by (induction n) (simp_all add: algebra_simps)

lemma thread_size:
  assumes "1 \<le> nThreads" "0 \<le> tot"
  shows "c_div tot nThreads = tot div nThreads"
    and "0 \<le> tot div nThreads"
    and "nThreads * (tot div nThreads) \<le> tot"
proof -
  from assms show "c_div tot nThreads = tot div nThreads" by (intro c_div_nonneg) auto
  from assms show "0 \<le> tot div nThreads" by (simp add: pos_imp_zdiv_nonneg_iff)
  have "nThreads * (tot div nThreads) + tot mod nThreads = tot" by simp
  moreover from assms have "0 \<le> tot mod nThreads" by simp
  ultimately show "nThreads * (tot div nThreads) \<le> tot" by linarith
qed

lemma partitions_explicit:
  assumes n: "1 \<le> nThreads" and r: "0 \<le> nRows" and c: "0 \<le> nCols"
  shows "partitions nThreads nRows nCols =
     map (\<lambda>i. (int i * (nRows * nCols div nThreads), (int i + 1) * (nRows * nCols div nThreads)))
       [0..<nat (nThreads - 1)] @
     [((nThreads - 1) * (nRows * nCols div nThreads), nRows * nCols)]"
proof -
  let ?tot = "nRows * nCols"
  let ?ts = "?tot div nThreads"
  from r c have t: "0 \<le> ?tot" by simp
  note ts = thread_size [OF n t]
  have m: "min ((int i + 1) * ?ts) ?tot = (int i + 1) * ?ts" if "i < nat (nThreads - 1)" for i
  proof -
    from that have "int i + 1 \<le> nThreads" by simp
    then have "(int i + 1) * ?ts \<le> nThreads * ?ts" using ts(2) by (rule mult_right_mono)
    with ts(3) show ?thesis by simp
  qed
  have "map (\<lambda>i. (0 + int i * ?ts, min (0 + (int i + 1) * ?ts) ?tot)) [0..<nat (nThreads - 1)] =
        map (\<lambda>i. (int i * ?ts, (int i + 1) * ?ts)) [0..<nat (nThreads - 1)]"
    using m by (intro map_cong refl) simp
  moreover from n have "int (nat (nThreads - 1)) = nThreads - 1" by simp
  ultimately show ?thesis
    unfolding partitions_def Let_def ts(1) partition_loop by simp
qed

lemma upto_append:
  fixes a b c :: int
  assumes "a \<le> b" "b \<le> c"
  shows "[a..b - 1] @ [b..c - 1] = [a..c - 1]"
proof (cases "b = c")
  case True
  then show ?thesis by simp
next
  case False
  with assms have "b \<le> c - 1" by simp
  with assms(1) show ?thesis by (simp add: upto_split1 [of a b "c - 1"])
qed

lemma concat_ranges:
  assumes "0 \<le> ts"
  shows "concat (map (\<lambda>i. [int i * ts .. (int i + 1) * ts - 1]) [0..<n]) = [0 .. int n * ts - 1]"
proof (induction n)
  case 0
  then show ?case by simp
next
  case (Suc n)
  from assms have "0 \<le> int n * ts" "int n * ts \<le> (int n + 1) * ts"
    by (simp_all add: algebra_simps)
  then have "[0 .. int n * ts - 1] @ [int n * ts .. (int n + 1) * ts - 1] = [0 .. (int n + 1) * ts - 1]"
    by (rule upto_append)
  with Suc show ?case by (simp add: algebra_simps)
qed

lemma partitions_concat:
  assumes n: "1 \<le> nThreads" and r: "0 \<le> nRows" and c: "0 \<le> nCols"
  shows "concat (map (\<lambda>(s, e). [s .. e - 1]) (partitions nThreads nRows nCols)) =
           [0 .. nRows * nCols - 1]"
proof -
  let ?tot = "nRows * nCols"
  let ?ts = "?tot div nThreads"
  from r c have t: "0 \<le> ?tot" by simp
  note ts = thread_size [OF n t]
  from n have k: "int (nat (nThreads - 1)) = nThreads - 1" by simp
  have "(nThreads - 1) * ?ts \<le> nThreads * ?ts" using ts(2) by (intro mult_right_mono) auto
  with ts(3) have le: "(nThreads - 1) * ?ts \<le> ?tot" by simp
  have ge: "0 \<le> (nThreads - 1) * ?ts" using n ts(2) by simp
  have "concat (map (\<lambda>(s, e). [s .. e - 1]) (partitions nThreads nRows nCols)) =
        concat (map (\<lambda>i. [int i * ?ts .. (int i + 1) * ?ts - 1]) [0..<nat (nThreads - 1)]) @
        [(nThreads - 1) * ?ts .. ?tot - 1]"
    unfolding partitions_explicit [OF n r c] by (simp add: comp_def)
  also have "\<dots> = [0 .. (nThreads - 1) * ?ts - 1] @ [(nThreads - 1) * ?ts .. ?tot - 1]"
    unfolding concat_ranges [OF ts(2)] k ..
  also have "\<dots> = [0 .. ?tot - 1]" using ge le by (rule upto_append)
  finally show ?thesis .
qed

lemma partitions_length:
  assumes "1 \<le> nThreads" "0 \<le> nRows" "0 \<le> nCols"
  shows "length (partitions nThreads nRows nCols) = nat nThreads"
  using assms(1) unfolding partitions_explicit [OF assms] by simp

lemma partitions_nth:
  assumes n: "1 \<le> nThreads" and r: "0 \<le> nRows" and c: "0 \<le> nCols"
    and i: "i < nat nThreads"
  shows "partitions nThreads nRows nCols ! i =
           (int i * (nRows * nCols div nThreads),
            if Suc i = nat nThreads then nRows * nCols
            else (int i + 1) * (nRows * nCols div nThreads))"
proof (cases "Suc i = nat nThreads")
  case True
  then have "i = nat (nThreads - 1)" "int i = nThreads - 1" by simp_all
  then show ?thesis
    unfolding partitions_explicit [OF n r c] using True by (simp add: nth_append)
next
  case False
  with i have "i < nat (nThreads - 1)" by simp
  then show ?thesis
    unfolding partitions_explicit [OF n r c] using False by (simp add: nth_append)
qed

lemma partitions_ordered:
  assumes n: "1 \<le> nThreads" and r: "0 \<le> nRows" and c: "0 \<le> nCols"
    and ij: "i < j" "j < nat nThreads"
  shows "fst (partitions nThreads nRows nCols ! i) \<le> snd (partitions nThreads nRows nCols ! i)"
    and "snd (partitions nThreads nRows nCols ! i) \<le> fst (partitions nThreads nRows nCols ! j)"
    and "fst (partitions nThreads nRows nCols ! j) \<le> snd (partitions nThreads nRows nCols ! j)"
proof -
  let ?tot = "nRows * nCols"
  let ?ts = "?tot div nThreads"
  from r c have t: "0 \<le> ?tot" by simp
  note ts = thread_size [OF n t]
  from ij have i: "i < nat nThreads" "Suc i \<noteq> nat nThreads" by simp_all
  have up: "int a * ?ts \<le> int b * ?ts" if "a \<le> b" for a b
    using that ts(2) by (intro mult_right_mono) auto
  have "int (Suc i) * ?ts \<le> int j * ?ts" using ij(1) by (intro up) simp
  then have s: "(int i + 1) * ?ts \<le> int j * ?ts" by (simp add: algebra_simps)
  have "int i * ?ts \<le> int (Suc i) * ?ts" by (intro up) simp
  then have f: "int i * ?ts \<le> (int i + 1) * ?ts" by (simp add: algebra_simps)
  have "int j * ?ts \<le> int (Suc j) * ?ts" by (intro up) simp
  then have g: "int j * ?ts \<le> (int j + 1) * ?ts" by (simp add: algebra_simps)
  have "int j * ?ts \<le> nThreads * ?ts" using ij(2) ts(2) by (intro mult_right_mono) auto
  with ts(3) have h: "int j * ?ts \<le> ?tot" by simp
  show "fst (partitions nThreads nRows nCols ! i) \<le> snd (partitions nThreads nRows nCols ! i)"
    using f i by (simp add: partitions_nth [OF n r c i(1)])
  show "snd (partitions nThreads nRows nCols ! i) \<le> fst (partitions nThreads nRows nCols ! j)"
    using s i by (simp add: partitions_nth [OF n r c i(1)] partitions_nth [OF n r c ij(2)])
  show "fst (partitions nThreads nRows nCols ! j) \<le> snd (partitions nThreads nRows nCols ! j)"
    using g h by (simp add: partitions_nth [OF n r c ij(2)])
qed

text \<open>
  C6. For \<open>nThreads \<ge> 1\<close> and a grid of \<open>nRows \<times> nCols\<close> cells, \<open>goi\<close> builds
  \<open>nThreads\<close> index ranges \<open>[startIdx, endIdx)\<close> whose index lists, one after the
  other, are exactly \<open>0, 1, \<dots>, nRows * nCols - 1\<close>: each range starts where the one
  before it ends, ranges do not overlap and every cell index lies in exactly one. Each of
  the first \<open>nThreads - 1\<close> ranges has \<open>nRows * nCols div nThreads\<close> indices and the
  last one has the remainder \<open>nRows * nCols mod nThreads\<close> in addition, which is less
  than \<open>nThreads\<close> (and not bounded by \<open>nCols\<close>).
\<close>

theorem partitions_cover:
  assumes "1 \<le> nThreads" and "0 \<le> nRows" and "0 \<le> nCols"
  shows "(let tot = nRows * nCols; threadSize = tot div nThreads;
              ps = partitions nThreads nRows nCols
          in length ps = nat nThreads \<and>
             concat (map (\<lambda>(startIdx, endIdx). [startIdx .. endIdx - 1]) ps) = [0 .. tot - 1] \<and>
             (\<forall>i. Suc i < length ps \<longrightarrow>
                    partSize (ps ! i) = threadSize \<and> snd (ps ! i) = fst (ps ! Suc i)) \<and>
             (\<forall>i j. i < j \<and> j < length ps \<longrightarrow> snd (ps ! i) \<le> fst (ps ! j)) \<and>
             (\<forall>i. i < length ps \<longrightarrow> fst (ps ! i) \<le> snd (ps ! i)) \<and>
             fst (hd ps) = 0 \<and> snd (last ps) = tot \<and>
             partSize (last ps) = threadSize + tot mod nThreads \<and>
             0 \<le> tot mod nThreads \<and> tot mod nThreads < nThreads)"
proof -
  let ?tot = "nRows * nCols"
  let ?ts = "?tot div nThreads"
  let ?ps = "partitions nThreads nRows nCols"
  note len = partitions_length [OF assms]
  note nth = partitions_nth [OF assms]
  from assms(1) have pos: "0 < nat nThreads" by simp
  have ne: "?ps \<noteq> []" using len pos by auto
  have a: "partSize (?ps ! i) = ?ts \<and> snd (?ps ! i) = fst (?ps ! Suc i)"
    if "Suc i < length ?ps" for i
  proof -
    from that len have i: "i < nat nThreads" "Suc i < nat nThreads" "Suc i \<noteq> nat nThreads"
      by simp_all
    show ?thesis using i(3) by (simp add: nth [OF i(1)] nth [OF i(2)] partSize_def algebra_simps)
  qed
  have b: "snd (?ps ! i) \<le> fst (?ps ! j)" if "i < j \<and> j < length ?ps" for i j
    using that len partitions_ordered(2) [OF assms, of i j] by simp
  have c: "fst (?ps ! i) \<le> snd (?ps ! i)" if "i < length ?ps" for i
  proof (cases i)
    case 0
    show ?thesis
    proof (cases "1 < length ?ps")
      case True
      with len partitions_ordered(1) [OF assms, of 0 1] 0 show ?thesis by simp
    next
      case False
      with that 0 len have "Suc 0 = nat nThreads" by simp
      then show ?thesis using assms 0 nth [of 0] by simp
    qed
  next
    case (Suc k)
    with that len partitions_ordered(3) [OF assms, of k i] show ?thesis by simp
  qed
  have d: "fst (hd ?ps) = 0"
    using ne pos by (simp add: hd_conv_nth nth [of 0])
  have l: "last ?ps = ((nThreads - 1) * ?ts, ?tot)"
    unfolding partitions_explicit [OF assms] by simp
  have "nThreads * ?ts + ?tot mod nThreads = ?tot" by simp
  then have e: "partSize (last ?ps) = ?ts + ?tot mod nThreads"
    unfolding l by (simp add: partSize_def algebra_simps)
  have m: "0 \<le> ?tot mod nThreads" "?tot mod nThreads < nThreads" using assms(1) by simp_all
  show ?thesis
    unfolding Let_def
    using len partitions_concat [OF assms] a b c d l e m by simp
qed

theorem partitions_cover_witness:
  "(1::int) \<le> 3 \<and> (0::int) \<le> 5 \<and> (0::int) \<le> 1 \<and>
   partitions 3 5 1 = [(0, 1), (1, 2), (2, 5)] \<and>
   concat (map (\<lambda>(startIdx, endIdx). [startIdx .. endIdx - 1]) (partitions 3 5 1)) = [0 .. 5 * 1 - 1] \<and>
   partSize (last (partitions 3 5 1)) = 5 * 1 div 3 + 5 * 1 mod 3"
proof -
  have h: "(1::int) \<le> 3" "(0::int) \<le> 5" "(0::int) \<le> 1" by simp_all
  have p: "partitions 3 5 1 = [(0, 1), (1, 2), (2, 5)]" by code_simp
  from partitions_cover [OF h] p show ?thesis by (simp add: Let_def)
qed

text \<open>The bound of one row of cells on the imbalance, which the specification states,
  fails for three workers on a grid of five rows and one column: the last range is two
  cells longer than the others.\<close>

theorem partition_imbalance_counterexample:
  "partitions 3 5 1 = [(0, 1), (1, 2), (2, 5)] \<and>
   partSize (hd (partitions 3 5 1)) = 1 \<and>
   partSize (last (partitions 3 5 1)) = 3 \<and>
   \<not> partSize (last (partitions 3 5 1)) - partSize (hd (partitions 3 5 1)) \<le> 1"
proof -
  have p: "partitions 3 5 1 = [(0, 1), (1, 2), (2, 5)]" by code_simp
  show ?thesis unfolding p by (simp add: partSize_def)
qed

subsection \<open>Loops\<close>

lemma forEach_append:
  "forEach (xs @ ys) body s =
     (case forEach xs body s of Inl e \<Rightarrow> Inl e | Inr s' \<Rightarrow> forEach ys body s')"
  by (induction xs arbitrary: s) (simp_all split: sum.splits)

lemma forEach_concat:
  "forEach (concat xss) body s = forEach xss (\<lambda>xs. forEach xs body) s"
  by (induction xss arbitrary: s) (simp_all add: forEach_append split: sum.splits)

lemma forEach_invariant:
  assumes "I 0 s"
    and "\<And>k s. k < length xs \<Longrightarrow> I k s \<Longrightarrow> \<exists>s'. body (xs ! k) s = Inr s' \<and> I (Suc k) s'"
  shows "\<exists>s'. forEach xs body s = Inr s' \<and> I (length xs) s'"
  using assms
proof (induction xs arbitrary: I s)
  case Nil
  then show ?case by simp
next
  case (Cons x xs)
  from Cons.prems(2) [of 0 s] Cons.prems(1) obtain s1 where
    s1: "body x s = Inr s1" "I (Suc 0) s1" by auto
  have "\<exists>s'. forEach xs body s1 = Inr s' \<and> I (Suc (length xs)) s'"
  proof (rule Cons.IH [of "\<lambda>k. I (Suc k)"])
    show "I (Suc 0) s1" by (rule s1(2))
  next
    fix k s assume "k < length xs" "I (Suc k) s"
    with Cons.prems(2) [of "Suc k" s] show "\<exists>s'. body (xs ! k) s = Inr s' \<and> I (Suc (Suc k)) s'"
      by simp
  qed
  with s1(1) show ?case by simp
qed

subsection \<open>A world without live cells\<close>

lemma dead_world_valid:
  "validWorld (replicate (nat (nRows * nCols)) 0) nRows nCols"
  by (simp add: validWorld_def wellSized_def list_all_iff MAX_FACTIONS_def)

lemma dead_world_specCount:
  assumes "f \<noteq> 0"
  shows "specCount (replicate (nat (nRows * nCols)) 0) nRows nCols row col f = 0"
proof -
  let ?w = "replicate (nat (nRows * nCols)) (0::int)"
  have "\<not> ?w ! cellIndex nCols (fst p) (snd p) = f"
    if "p \<in> set (specNeighbours nRows nCols row col)" for p
  proof -
    from that have "inGrid nRows nCols (fst p) (snd p)"
      by (auto simp: specNeighbours_def simp del: product.simps)
    then have "cellIndex nCols (fst p) (snd p) < nat (nRows * nCols)"
      using cellIndex_less [of nRows nCols "fst p" "snd p" ?w] by (simp add: wellSized_def)
    with assms show ?thesis by simp
  qed
  then have "filter (\<lambda>p. ?w ! cellIndex nCols (fst p) (snd p) = f)
               (specNeighbours nRows nCols row col) = []"
    by (intro filter_False ballI)
  then show ?thesis by (simp add: specCount_def case_prod_unfold)
qed

lemma dead_world_getNextState:
  assumes g: "inGrid nRows nCols row col"
  shows "getNextState (replicate (nat (nRows * nCols)) 0) None nRows nCols row col = Inr (0, False)"
proof -
  let ?w = "replicate (nat (nRows * nCols)) (0::int)"
  note v = dead_world_valid [of nRows nCols]
  then have w: "wellSized ?w nRows nCols" by (simp add: validWorld_def)
  have n: "noInvasionAt None nRows nCols row col" by (simp add: noInvasionAt_def)
  from g w have "cellIndex nCols row col < nat (nRows * nCols)"
    using cellIndex_less [of nRows nCols row col ?w] by simp
  then have o: "?w ! cellIndex nCols row col = 0" by simp
  have b: "{f. 1 \<le> f \<and> f < MAX_FACTIONS \<and> specCount ?w nRows nCols row col f = 3} = {}"
    by (auto simp: dead_world_specCount)
  have "neighborRules ?w nRows nCols row col (?w ! cellIndex nCols row col) = Inr (0, False)"
    unfolding neighborRules_spec [OF v g] Let_def b using o by simp
  then show ?thesis by (simp only: getNextState_rules [OF g w n])
qed

lemma index_cell:
  assumes "0 \<le> i" "i < nRows * nCols" "0 \<le> nRows" "0 \<le> nCols"
  shows "inGrid nRows nCols (i div nCols) (i mod nCols)"
    and "(i div nCols) * nCols + i mod nCols = i"
proof -
  from assms have c: "0 < nCols"
    by (metis less_le mult_zero_right not_less)
  have "i div nCols < nRows"
  proof (rule ccontr)
    assume "\<not> i div nCols < nRows"
    then have "nRows * nCols \<le> (i div nCols) * nCols"
      using c by (intro mult_right_mono) auto
    moreover have "(i div nCols) * nCols + i mod nCols = i" by simp
    moreover have "0 \<le> i mod nCols" using c by simp
    ultimately show False using assms(2) by linarith
  qed
  moreover have "0 \<le> i div nCols" using assms(1) c by (simp add: pos_imp_zdiv_nonneg_iff)
  ultimately show "inGrid nRows nCols (i div nCols) (i mod nCols)"
    using c by (simp add: inGrid_def)
  show "(i div nCols) * nCols + i mod nCols = i" by simp
qed

lemma dead_world_cellStep:
  assumes i: "0 \<le> i" "i < nRows * nCols" and d: "0 \<le> nRows" "0 \<le> nCols"
    and l: "length buf = nat (nRows * nCols)"
  shows "cellStep (replicate (nat (nRows * nCols)) 0) None nRows nCols i (buf, toll) =
           Inr (buf[nat i := 0], toll)"
proof -
  note g = index_cell(1) [OF i d]
  note e = index_cell(2) [OF i d]
  from l have w: "wellSized buf nRows nCols" by (simp add: wellSized_def)
  from cellStep_inGrid [OF g w dead_world_getNextState [OF g], of toll]
  show ?thesis unfolding e by (simp add: cellIndex_def e)
qed

lemma forEach_map: "forEach (map f xs) body s = forEach xs (\<lambda>x. body (f x)) s"
  by (induction xs arbitrary: s) (simp_all split: sum.splits)

lemma upto_length_nth:
  fixes n :: int
  shows "length [0..n - 1] = nat n" and "k < nat n \<Longrightarrow> [0..n - 1] ! k = int k"
  by simp_all

lemma dead_world_runWorkers:
  assumes n: "1 \<le> nThreads" and d: "0 \<le> nRows" "0 \<le> nCols"
    and l: "length buf = nat (nRows * nCols)"
  shows "runWorkers (partitions nThreads nRows nCols) (replicate (nat (nRows * nCols)) 0) None
           nRows nCols (buf, toll) = Inr (replicate (nat (nRows * nCols)) 0, toll)"
proof -
  let ?tot = "nRows * nCols"
  let ?w = "replicate (nat ?tot) (0::int)"
  let ?step = "cellStep ?w None nRows nCols"
  let ?I = "\<lambda>k (st :: int list \<times> int).
              length (fst st) = nat ?tot \<and> (\<forall>j<k. fst st ! j = 0) \<and> snd st = toll"
  have r: "runWorkers (partitions nThreads nRows nCols) ?w None nRows nCols (buf, toll) =
           forEach [0 .. ?tot - 1] ?step (buf, toll)"
    unfolding runWorkers_def partitions_concat [OF n d, symmetric] forEach_concat forEach_map
    by (simp add: case_prod_unfold)
  have "\<exists>s'. forEach [0 .. ?tot - 1] ?step (buf, toll) = Inr s' \<and> ?I (length [0 .. ?tot - 1]) s'"
  proof (rule forEach_invariant)
    show "?I 0 (buf, toll)" using l by simp
  next
    fix k and s :: "int list \<times> int"
    assume k: "k < length [0 .. ?tot - 1]" and i: "?I k s"
    from k have kt: "k < nat ?tot" by simp
    then have x: "[0 .. ?tot - 1] ! k = int k" by (rule upto_length_nth(2))
    from kt have b: "0 \<le> int k" "int k < ?tot" by simp_all
    from i have s: "s = (fst s, toll)" by (cases s) simp
    from i have ls: "length (fst s) = nat ?tot" by simp
    have c: "?step (int k) (fst s, toll) = Inr ((fst s)[nat (int k) := 0], toll)"
      using b d ls by (rule dead_world_cellStep)
    have "?I (Suc k) ((fst s)[k := 0], toll)"
      using i kt by (auto simp: nth_list_update less_Suc_eq)
    with c s x show "\<exists>s'. ?step ([0 .. ?tot - 1] ! k) s = Inr s' \<and> ?I (Suc k) s'"
      by (metis nat_int)
  qed
  then obtain s' where s': "forEach [0 .. ?tot - 1] ?step (buf, toll) = Inr s'"
    "length (fst s') = nat ?tot" "\<forall>j<nat ?tot. fst s' ! j = 0" "snd s' = toll"
    by auto
  from s'(2,3) have "fst s' = ?w" by (simp add: list_eq_iff_nth_eq)
  with s'(4) have "s' = (?w, toll)" by (cases s') simp
  with s'(1) r show ?thesis by simp
qed

lemma copyGrid_copies:
  assumes w: "wellSized src nRows nCols" and l: "length dst = nat (nRows * nCols)"
    and d: "0 \<le> nRows" "0 \<le> nCols"
  shows "copyGrid src dst nRows nCols = Inr src"
proof -
  let ?tot = "nRows * nCols"
  let ?cell = "\<lambda>row col grid.
                 case getValueAt src nRows nCols row col of
                   Inl e \<Rightarrow> Inl e
                 | Inr v \<Rightarrow> setValueAt grid nRows nCols row col v"
  let ?I = "\<lambda>k (g :: int list). length g = nat ?tot \<and> (\<forall>j<k. g ! j = src ! j)"
  have inner: "\<exists>g'. forEach [0 .. nCols - 1] (?cell (int r)) g = Inr g' \<and>
                    ?I (Suc r * nat nCols) g'"
    if r: "r < nat nRows" and g: "?I (r * nat nCols) g" for r g
  proof -
    have "\<exists>g'. forEach [0 .. nCols - 1] (?cell (int r)) g = Inr g' \<and>
               ?I (r * nat nCols + length [0 .. nCols - 1]) g'"
    proof (rule forEach_invariant [where I = "\<lambda>m. ?I (r * nat nCols + m)"])
      show "?I (r * nat nCols + 0) g" using g by simp
    next
      fix m and h :: "int list"
      assume m: "m < length [0 .. nCols - 1]" and h: "?I (r * nat nCols + m) h"
      from m have mc: "m < nat nCols" by simp
      then have x: "[0 .. nCols - 1] ! m = int m" by (rule upto_length_nth(2))
      from r mc have ig: "inGrid nRows nCols (int r) (int m)" by (auto simp: inGrid_def)
      from h have hw: "wellSized h nRows nCols" by (simp add: wellSized_def)
      have ci: "cellIndex nCols (int r) (int m) = r * nat nCols + m"
        using d mc by (simp add: cellIndex_def nat_add_distrib nat_mult_distrib)
      have c: "?cell (int r) (int m) h = Inr (h[r * nat nCols + m := src ! (r * nat nCols + m)])"
        by (simp add: getValueAt_inGrid [OF ig w] setValueAt_inGrid [OF ig hw] ci)
      have "r * nat nCols + m < length h"
        using cellIndex_less [OF ig hw] ci by simp
      then have "?I (r * nat nCols + Suc m) (h[r * nat nCols + m := src ! (r * nat nCols + m)])"
        using h by (auto simp: nth_list_update less_Suc_eq)
      with c show "\<exists>h'. ?cell (int r) ([0 .. nCols - 1] ! m) h = Inr h' \<and>
                         ?I (r * nat nCols + Suc m) h'" unfolding x by simp
    qed
    then show ?thesis by (simp add: add.commute)
  qed
  have "\<exists>g'. forEach [0 .. nRows - 1] (\<lambda>row. forEach [0 .. nCols - 1] (?cell row)) dst = Inr g' \<and>
             ?I (length [0 .. nRows - 1] * nat nCols) g'"
  proof (rule forEach_invariant [where I = "\<lambda>k. ?I (k * nat nCols)"])
    show "?I (0 * nat nCols) dst" using l by simp
  next
    fix k and g :: "int list"
    assume k: "k < length [0 .. nRows - 1]" and g: "?I (k * nat nCols) g"
    from k have kr: "k < nat nRows" by simp
    then have x: "[0 .. nRows - 1] ! k = int k" by (rule upto_length_nth(2))
    from inner [OF kr g]
    show "\<exists>g'. forEach [0 .. nCols - 1] (?cell ([0 .. nRows - 1] ! k)) g = Inr g' \<and>
               ?I (Suc k * nat nCols) g'" unfolding x by simp
  qed
  then obtain g' where g': "copyGrid src dst nRows nCols = Inr g'"
    "length g' = nat ?tot" "\<forall>j<nat nRows * nat nCols. g' ! j = src ! j"
    unfolding copyGrid_def by auto
  from d have "nat nRows * nat nCols = nat ?tot" by (simp add: nat_mult_distrib)
  with g'(2,3) w have "g' = src" by (simp add: list_eq_iff_nth_eq wellSized_def)
  with g'(1) show ?thesis by simp
qed

subsection \<open>The heap\<close>

lemma malloc_ok:
  "mallocOk e (allocated h) \<Longrightarrow>
   malloc e h = (Some (allocated h), \<lparr>allocated = Suc (allocated h), live = allocated h # live h\<rparr>)"
  by (simp add: malloc_def Let_def)

lemma free_live:
  "k \<in> set (live h) \<Longrightarrow> free k h = Inr (h\<lparr>live := removeAll k (live h)\<rparr>)"
  by (simp add: free_def)

lemma free_all:
  "distinct items \<Longrightarrow> set items \<subseteq> set (live h) \<Longrightarrow>
   \<exists>h'. forEach items free h = Inr h' \<and> set (live h') = set (live h) - set items"
proof (induction items arbitrary: h)
  case Nil
  then show ?case by simp
next
  case (Cons k items)
  from Cons.prems have k: "k \<in> set (live h)" by simp
  let ?h = "h\<lparr>live := removeAll k (live h)\<rparr>"
  from Cons.prems have "distinct items" "set items \<subseteq> set (live ?h)" by auto
  from Cons.IH [OF this] obtain h' where
    "forEach items free ?h = Inr h'" "set (live h') = set (live ?h) - set items" by blast
  then show ?case by (auto simp: free_live [OF k])
qed

lemma allocItems_loop:
  assumes "\<forall>k. mallocOk e k"
  shows "forEach ts
           (\<lambda>t (items, h).
              case malloc e h of
                (None, h') \<Rightarrow> Inl (Crashed NullDeref, h')
              | (Some k, h') \<Rightarrow> Inr (items @ [k], h'))
           (items0, h) =
         Inr (items0 @ [allocated h ..< allocated h + length ts],
              \<lparr>allocated = allocated h + length ts,
               live = rev [allocated h ..< allocated h + length ts] @ live h\<rparr>)"
proof (induction ts arbitrary: items0 h)
  case Nil
  then show ?case by simp
next
  case (Cons t ts)
  from assms have m: "mallocOk e (allocated h)" by simp
  have u: "[allocated h ..< Suc (allocated h + length ts)] =
           allocated h # [Suc (allocated h) ..< Suc (allocated h + length ts)]"
    by (rule upt_conv_Cons) simp
  show ?case
    by (simp add: malloc_ok [OF m] Cons.IH u del: upt_Suc)
qed

lemma allocItems_ok:
  assumes "\<forall>k. mallocOk e k" and "0 \<le> nThreads"
  shows "allocItems e nThreads h =
         Inr ([allocated h ..< allocated h + nat nThreads],
              \<lparr>allocated = allocated h + nat nThreads,
               live = rev [allocated h ..< allocated h + nat nThreads] @ live h\<rparr>)"
  unfolding allocItems_def allocItems_loop [OF assms(1)] by simp

subsection \<open>Generations of a world without live cells\<close>

lemma dead_generation:
  assumes m: "\<forall>k. mallocOk e k" and t: "\<forall>t. threadOk e t"
    and n: "1 \<le> nThreads" and d: "0 \<le> nRows" "0 \<le> nCols"
    and w: "curWorld st = replicate (nat (nRows * nCols)) 0"
    and c: "curBlock st \<in> set (live (heapNow st))"
  shows "generation e nThreads nRows nCols 0 invasionTimes invasionPlans i st =
           Inr (st\<lparr>curBlock := allocated (heapNow st),
                   curWorld := replicate (nat (nRows * nCols)) 0,
                   deathToll := deathToll st, spawnThreads := True,
                   heapNow := \<lparr>allocated = Suc (allocated (heapNow st)),
                               live = removeAll (curBlock st)
                                        (allocated (heapNow st) # live (heapNow st))\<rparr>\<rparr>)"
proof -
  let ?h = "\<lparr>allocated = Suc (allocated (heapNow st)),
              live = allocated (heapNow st) # live (heapNow st)\<rparr>"
  have li: "loadInvasion e nRows nCols 0 invasionTimes invasionPlans i st = Inr (None, st)"
    by (simp add: loadInvasion_def)
  from m have mo: "mallocOk e (allocated (heapNow st))" by simp
  from t have th: "list_all (threadOk e) [0 ..< nat nThreads]" by (simp add: list_all_iff)
  have fl: "length (freshGrid e (allocated (heapNow st)) nRows nCols) = nat (nRows * nCols)"
    by (simp add: freshGrid_def)
  note rw = dead_world_runWorkers [OF n d fl, of "deathToll st"]
  from c have "curBlock st \<in> set (live ?h)" by simp
  then have rg: "releaseGrids None (curBlock st) ?h =
                   Inr (?h\<lparr>live := removeAll (curBlock st) (live ?h)\<rparr>)"
    by (simp add: releaseGrids_def free_live)
  show ?thesis
    unfolding generation_def li
    by (simp add: malloc_ok [OF mo] th w rw rg)
qed

lemma dead_generations:
  assumes m: "\<forall>k. mallocOk e k" and t: "\<forall>t. threadOk e t"
    and n: "1 \<le> nThreads" and d: "0 \<le> nRows" "0 \<le> nCols"
    and w: "curWorld st0 = replicate (nat (nRows * nCols)) 0"
    and z: "deathToll st0 = 0"
    and l: "set (live (heapNow st0)) = insert (curBlock st0) C"
    and c: "curBlock st0 \<notin> C"
    and b: "\<forall>k\<in>insert (curBlock st0) C. k < allocated (heapNow st0)"
  shows "\<exists>st. generations e nThreads nGenerations nRows nCols 0 invasionTimes invasionPlans st0 =
                Inr st \<and>
              curWorld st = replicate (nat (nRows * nCols)) 0 \<and> deathToll st = 0 \<and>
              set (live (heapNow st)) = insert (curBlock st) C \<and> curBlock st \<notin> C \<and>
              (1 \<le> nGenerations \<longrightarrow> spawnThreads st)"
proof -
  let ?Inv = "\<lambda>st :: sim. curWorld st = replicate (nat (nRows * nCols)) 0 \<and> deathToll st = 0 \<and>
                    set (live (heapNow st)) = insert (curBlock st) C \<and> curBlock st \<notin> C \<and>
                    (\<forall>k\<in>insert (curBlock st) C. k < allocated (heapNow st))"
  let ?gen = "generation e nThreads nRows nCols 0 invasionTimes invasionPlans"
  let ?I = "\<lambda>(k :: nat) (st :: sim). ?Inv st \<and> (0 < k \<longrightarrow> spawnThreads st)"
  have "\<exists>st. forEach [1 .. nGenerations] ?gen st0 = Inr st \<and> ?I (length [1 .. nGenerations]) st"
  proof (rule forEach_invariant [where I = ?I])
    show "?I 0 st0" using w z l c b by simp
  next
    fix k and st :: sim
    assume "?I k st"
    then have i: "?Inv st" by simp
    then have cw: "curWorld st = replicate (nat (nRows * nCols)) 0"
      and cl: "curBlock st \<in> set (live (heapNow st))" by simp_all
    let ?st' = "st\<lparr>curBlock := allocated (heapNow st),
                   curWorld := replicate (nat (nRows * nCols)) 0,
                   deathToll := deathToll st, spawnThreads := True,
                   heapNow := \<lparr>allocated = Suc (allocated (heapNow st)),
                               live = removeAll (curBlock st)
                                        (allocated (heapNow st) # live (heapNow st))\<rparr>\<rparr>"
    note g = dead_generation [OF m t n d cw cl, of invasionTimes invasionPlans "[1 .. nGenerations] ! k"]
    from i have lt: "curBlock st < allocated (heapNow st)"
      and ltC: "\<forall>k\<in>C. k < allocated (heapNow st)" by simp_all
    from ltC have nc: "allocated (heapNow st) \<notin> C" by auto
    from i lt have "set (live (heapNow ?st')) = insert (allocated (heapNow st)) C" by auto
    with i nc ltC have "?Inv ?st'" by auto
    then have "?I (Suc k) ?st'" by simp
    with g show "\<exists>s'. ?gen ([1 .. nGenerations] ! k) st = Inr s' \<and> ?I (Suc k) s'" by blast
  qed
  then show ?thesis unfolding generations_def by auto
qed

lemma cleanup_ok:
  assumes l: "set (live (heapNow st)) = insert (curBlock st) (insert sharedStructs (set items))"
    and c: "curBlock st \<notin> insert sharedStructs (set items)"
    and s: "sharedStructs \<notin> set items" and di: "distinct items"
    and j: "spawnThreads st"
  shows "\<exists>h. cleanup sharedStructs items st = (Returned (deathToll st), h) \<and> live h = []"
proof -
  let ?h1 = "(heapNow st)\<lparr>live := removeAll (curBlock st) (live (heapNow st))\<rparr>"
  from l have f1: "free (curBlock st) (heapNow st) = Inr ?h1" by (simp add: free_live)
  from l c have l1: "set (live ?h1) = insert sharedStructs (set items)" by auto
  then have "set items \<subseteq> set (live ?h1)" by auto
  from free_all [OF di this] obtain h2 where
    f2: "forEach items free ?h1 = Inr h2" and l2: "set (live h2) = set (live ?h1) - set items"
    by blast
  from l1 l2 s have l2': "set (live h2) = {sharedStructs}" by auto
  then have f3: "free sharedStructs h2 = Inr (h2\<lparr>live := removeAll sharedStructs (live h2)\<rparr>)"
    by (simp add: free_live)
  from l2' have "set (removeAll sharedStructs (live h2)) = {}" by simp
  then have "removeAll sharedStructs (live h2) = []" by (simp only: set_empty)
  then show ?thesis by (simp add: cleanup_def joinThreads_def j f1 f2 f3)
qed

lemma initialise_ok:
  assumes m: "\<forall>k. mallocOk e k" and n: "1 \<le> nThreads" and d: "0 \<le> nRows" "0 \<le> nCols"
    and w: "wellSized startWorld nRows nCols"
  shows "initialise e nThreads startWorld nRows nCols =
           Inr (0, [2 ..< 2 + nat nThreads],
                \<lparr>curBlock = 1, curWorld = startWorld, deathToll = 0, invasionIndex = 0,
                 spawnThreads = False,
                 heapNow = \<lparr>allocated = 2 + nat nThreads,
                            live = rev [2 ..< 2 + nat nThreads] @ [1, 0]\<rparr>\<rparr>)"
proof -
  from m have m0: "mallocOk e (allocated \<lparr>allocated = 0, live = []\<rparr>)"
    and m1: "mallocOk e (allocated \<lparr>allocated = Suc 0, live = [0]\<rparr>)" by simp_all
  have fl: "length (freshGrid e (Suc 0) nRows nCols) = nat (nRows * nCols)"
    by (simp add: freshGrid_def)
  note cp = copyGrid_copies [OF w fl d]
  from n have n0: "0 \<le> nThreads" by simp
  show ?thesis
    using n
    by (simp add: initialise_def malloc_ok [OF m0] malloc_ok [OF m1] cp
          allocItems_ok [OF m n0] numeral_2_eq_2 del: upt_Suc)
qed

lemma dead_world_run:
  assumes m: "\<forall>k. mallocOk e k" and t: "\<forall>t. threadOk e t"
    and n: "1 \<le> nThreads" and d: "0 \<le> nRows" "0 \<le> nCols"
    and gen: "1 \<le> nGenerations"
  shows "\<exists>h. goi e nThreads nGenerations (replicate (nat (nRows * nCols)) 0) nRows nCols 0
                invasionTimes invasionPlans = (Returned 0, h) \<and> live h = []"
    and "lastWorld e nThreads nGenerations (replicate (nat (nRows * nCols)) 0) nRows nCols 0
                invasionTimes invasionPlans = Some (replicate (nat (nRows * nCols)) 0)"
proof -
  let ?w = "replicate (nat (nRows * nCols)) (0::int)"
  let ?items = "[2 ..< 2 + nat nThreads]"
  let ?st0 = "\<lparr>curBlock = 1, curWorld = ?w, deathToll = 0, invasionIndex = 0,
               spawnThreads = False,
               heapNow = \<lparr>allocated = 2 + nat nThreads, live = rev ?items @ [1, 0]\<rparr>\<rparr>"
  let ?C = "insert 0 (set ?items)"
  have w: "wellSized ?w nRows nCols" by (simp add: wellSized_def)
  note i = initialise_ok [OF m n d w]
  have "\<exists>st. generations e nThreads nGenerations nRows nCols 0 invasionTimes invasionPlans ?st0 =
               Inr st \<and>
             curWorld st = ?w \<and> deathToll st = 0 \<and>
             set (live (heapNow st)) = insert (curBlock st) ?C \<and> curBlock st \<notin> ?C \<and>
             (1 \<le> nGenerations \<longrightarrow> spawnThreads st)"
    by (rule dead_generations [OF m t n d]) auto
  with gen obtain st where
    g: "generations e nThreads nGenerations nRows nCols 0 invasionTimes invasionPlans ?st0 = Inr st"
    and cw: "curWorld st = ?w" and z: "deathToll st = 0"
    and l: "set (live (heapNow st)) = insert (curBlock st) ?C" and c: "curBlock st \<notin> ?C"
    and j: "spawnThreads st"
    by blast
  have "\<exists>h. cleanup 0 ?items st = (Returned (deathToll st), h) \<and> live h = []"
    using l c j by (intro cleanup_ok) auto
  then show "\<exists>h. goi e nThreads nGenerations ?w nRows nCols 0 invasionTimes invasionPlans =
               (Returned 0, h) \<and> live h = []"
    unfolding goi_def i using g z by simp
  show "lastWorld e nThreads nGenerations ?w nRows nCols 0 invasionTimes invasionPlans = Some ?w"
    unfolding lastWorld_def i using g cw by simp
qed

text \<open>With at least one generation, a world without live cells is a fixed point: for any
  grid size and any number of workers, with an empty invasion schedule (and an
  environment in which every allocation and every thread creation succeeds), \<open>goi\<close>
  returns the death toll 0, every block it allocated is freed, and the world after the
  last generation is the initial world.\<close>

lemma dead_world_fixed_point:
  assumes "\<forall>k. mallocOk e k" and "\<forall>t. threadOk e t"
    and "1 \<le> nThreads" and "0 \<le> nRows" and "0 \<le> nCols"
    and "1 \<le> nGenerations"
    and "startWorld = replicate (nat (nRows * nCols)) 0"
  shows "fst (goi e nThreads nGenerations startWorld nRows nCols 0 [] []) = Returned 0 \<and>
         live (snd (goi e nThreads nGenerations startWorld nRows nCols 0 [] [])) = [] \<and>
         lastWorld e nThreads nGenerations startWorld nRows nCols 0 [] [] = Some startWorld"
  using dead_world_run [OF assms(1-6), of "[]" "[]"] assms(7) by auto

lemma dead_world_fixed_point_example:
  "fst (goi \<lparr>mallocOk = \<lambda>k. True, junk = \<lambda>k i. 7, threadOk = \<lambda>t. True\<rparr>
          2 4 [0, 0, 0, 0, 0, 0] 2 3 0 [] []) = Returned 0 \<and>
   live (snd (goi \<lparr>mallocOk = \<lambda>k. True, junk = \<lambda>k i. 7, threadOk = \<lambda>t. True\<rparr>
          2 4 [0, 0, 0, 0, 0, 0] 2 3 0 [] [])) = [] \<and>
   lastWorld \<lparr>mallocOk = \<lambda>k. True, junk = \<lambda>k i. 7, threadOk = \<lambda>t. True\<rparr>
          2 4 [0, 0, 0, 0, 0, 0] 2 3 0 [] [] = Some [0, 0, 0, 0, 0, 0]"
proof -
  let ?e = "\<lparr>mallocOk = \<lambda>k. True, junk = \<lambda>k i. 7, threadOk = \<lambda>t. True\<rparr>"
  have h1: "\<forall>k. mallocOk ?e k" by simp
  have h2: "\<forall>t. threadOk ?e t" by simp
  have h3: "(1::int) \<le> 2" "(0::int) \<le> 2" "(0::int) \<le> 3" "(1::int) \<le> 4" by simp_all
  have h4: "[0, 0, 0, 0, 0, 0] = replicate (nat (2 * 3)) (0::int)"
    by (simp add: numeral_eq_Suc)
  from dead_world_fixed_point [OF h1 h2 h3 h4] show ?thesis by simp
qed

text \<open>Without a generation the threads are never created, and whatever the world, the
  call ends in the joins of lines 365-367, on handles that were never set.\<close>

lemma no_generation_joins_uncreated:
  assumes m: "\<forall>k. mallocOk e k" and n: "1 \<le> nThreads" and d: "0 \<le> nRows" "0 \<le> nCols"
    and w: "wellSized startWorld nRows nCols" and g: "nGenerations \<le> 0"
  shows "fst (goi e nThreads nGenerations startWorld nRows nCols nInvasions invasionTimes
                invasionPlans) = Crashed JoinUncreated"
proof -
  from g have "[1 .. nGenerations] = []" by simp
  then show ?thesis
    unfolding goi_def initialise_ok [OF m n d w] generations_def
    by (simp add: cleanup_def joinThreads_def)
qed

text \<open>
  C7. The property at stake: a world without live cells is a fixed point of the
  generation step when there is no invasion, so that for any number of generations
  \<open>nGenerations \<ge> 0\<close> with an empty invasion schedule \<open>goi\<close> returns the death
  toll 0 and ends with the initial world. The code does so for every
  \<open>nGenerations \<ge> 1\<close> (\<open>dead_world_fixed_point\<close> above), but not for
  \<open>nGenerations = 0\<close>: the workers are created in the first pass of the generation
  loop, the loop does not run, and the call of \<open>pthread_join\<close> after it reads an
  element of \<open>threads\<close> that was never set. Evaluated on a 1 x 1 world without a live
  cell and one worker, with no generation and with one.
\<close>

theorem no_generation_dead_world_fault:
  "goi \<lparr>mallocOk = \<lambda>k. True, junk = \<lambda>k i. 7, threadOk = \<lambda>t. True\<rparr> 1 0 [0] 1 1 0 [] [] =
     (Crashed JoinUncreated, \<lparr>allocated = 3, live = [2, 1, 0]\<rparr>) \<and>
   goi \<lparr>mallocOk = \<lambda>k. True, junk = \<lambda>k i. 7, threadOk = \<lambda>t. True\<rparr> 1 1 [0] 1 1 0 [] [] =
     (Returned 0, \<lparr>allocated = 4, live = []\<rparr>) \<and>
   lastWorld \<lparr>mallocOk = \<lambda>k. True, junk = \<lambda>k i. 7, threadOk = \<lambda>t. True\<rparr> 1 1 [0] 1 1 0 [] [] =
     Some [0]"
  by code_simp

subsection \<open>The examples of the specification\<close>

text \<open>A horizontal triple of faction 1 in a 3 x 3 world turns into the vertical one in
  one generation, with death toll 0; a single live cell dies without a fight; two
  neighbouring cells of different factions both die by fighting, death toll 2.\<close>

lemma blinker_example:
  "goi \<lparr>mallocOk = \<lambda>k. True, junk = \<lambda>k i. 7, threadOk = \<lambda>t. True\<rparr>
       1 1 [0, 0, 0, 1, 1, 1, 0, 0, 0] 3 3 0 [] [] = (Returned 0, \<lparr>allocated = 4, live = []\<rparr>) \<and>
   lastWorld \<lparr>mallocOk = \<lambda>k. True, junk = \<lambda>k i. 7, threadOk = \<lambda>t. True\<rparr>
       1 1 [0, 0, 0, 1, 1, 1, 0, 0, 0] 3 3 0 [] [] = Some [0, 1, 0, 0, 1, 0, 0, 1, 0]"
  by code_simp

lemma lonely_cell_example:
  "goi \<lparr>mallocOk = \<lambda>k. True, junk = \<lambda>k i. 7, threadOk = \<lambda>t. True\<rparr>
       1 1 [1] 1 1 0 [] [] = (Returned 0, \<lparr>allocated = 4, live = []\<rparr>) \<and>
   lastWorld \<lparr>mallocOk = \<lambda>k. True, junk = \<lambda>k i. 7, threadOk = \<lambda>t. True\<rparr>
       1 1 [1] 1 1 0 [] [] = Some [0]"
  by code_simp

lemma two_enemies_example:
  "goi \<lparr>mallocOk = \<lambda>k. True, junk = \<lambda>k i. 7, threadOk = \<lambda>t. True\<rparr>
       2 1 [1, 2] 1 2 0 [] [] = (Returned 2, \<lparr>allocated = 5, live = []\<rparr>) \<and>
   lastWorld \<lparr>mallocOk = \<lambda>k. True, junk = \<lambda>k i. 7, threadOk = \<lambda>t. True\<rparr>
       2 1 [1, 2] 1 2 0 [] [] = Some [0, 0]"
  by code_simp

subsection \<open>Failing allocations\<close>

text \<open>Whatever the arguments of \<open>goi\<close>: when \<open>sharedStructs\<close> is allocated and the
  copy of the world is not, the call returns \<open>-1\<close> and block 0, the array
  \<open>sharedStructs\<close>, is still live.\<close>

lemma world_alloc_failure:
  assumes "1 \<le> nThreads" and "mallocOk e 0" and "\<not> mallocOk e 1"
  shows "goi e nThreads nGenerations startWorld nRows nCols nInvasions invasionTimes invasionPlans =
           (Returned (- 1), \<lparr>allocated = 2, live = [0]\<rparr>)"
  using assms by (simp add: goi_def initialise_def malloc_def numeral_2_eq_2)

text \<open>
  C8. The property at stake: when the allocation of the world copy, of an overlay copy or
  of a next buffer fails, \<open>goi\<close> releases every block it has acquired and reports
  \<open>-1\<close>. The code reports \<open>-1\<close> and frees the grids, but not everything it holds:
  after a failed allocation of the world copy the array \<open>sharedStructs\<close> (block 0) is
  still live, and after a failed allocation of a next buffer or of an overlay copy in
  generation 1 both \<open>sharedStructs\<close> and the worker's \<open>shared\<close> block (block 2) are.
  Evaluated on a 1 x 1 grid with one worker, the failing call of \<open>malloc\<close> being the
  second, the fourth, the fourth and the fifth.
\<close>

theorem allocation_failure_leaks:
  "goi \<lparr>mallocOk = \<lambda>k. k \<noteq> 1, junk = \<lambda>k i. 7, threadOk = \<lambda>t. True\<rparr> 1 1 [0] 1 1 0 [] [] =
     (Returned (- 1), \<lparr>allocated = 2, live = [0]\<rparr>) \<and>
   goi \<lparr>mallocOk = \<lambda>k. k \<noteq> 3, junk = \<lambda>k i. 7, threadOk = \<lambda>t. True\<rparr> 1 1 [0] 1 1 0 [] [] =
     (Returned (- 1), \<lparr>allocated = 4, live = [2, 0]\<rparr>) \<and>
   goi \<lparr>mallocOk = \<lambda>k. k \<noteq> 3, junk = \<lambda>k i. 7, threadOk = \<lambda>t. True\<rparr> 1 1 [0] 1 1 1 [1] [[1]] =
     (Returned (- 1), \<lparr>allocated = 4, live = [2, 0]\<rparr>) \<and>
   goi \<lparr>mallocOk = \<lambda>k. k \<noteq> 4, junk = \<lambda>k i. 7, threadOk = \<lambda>t. True\<rparr> 1 1 [0] 1 1 1 [1] [[1]] =
     (Returned (- 1), \<lparr>allocated = 5, live = [2, 0]\<rparr>)"
  by code_simp

end
